theory Spec2Isabelle
  imports Main "HOL-Library.AList"
begin

section \<open>The room hub of lab\_7/websocket-chat/server/main.go\<close>

subsection \<open>Data model\<close>

text \<open>
  A \<open>*Client\<close> is an address; the Client structs live in a heap indexed by it.
  \<open>time.Time\<close> values are kept as their RFC3339 text, so \<open>Format(time.RFC3339)\<close>
  is the identity; every \<open>time.Now()\<close> of the source is a parameter of the model.
\<close>

type_synonym cid = nat

record Notification =
  ID :: string
  Type :: string
  Title :: string
  Message :: string
  Timestamp :: string
  Target :: string

record Message =
  Type :: string
  Room :: string
  Username :: string
  Text :: string
  Time :: string

text \<open>
  A buffered channel \<open>chan Message\<close>: the pending messages, oldest first, and the
  capacity given to \<open>make\<close>. The receiver (writePump) runs in another goroutine and
  is not part of a hub step.
\<close>

record chan =
  buf :: "Message list"
  cap :: nat

record Client =
  send :: chan
  username :: string
  room :: string

type_synonym heap = "cid \<Rightarrow> Client"

text \<open>
  Go maps are association lists with distinct keys; \<open>range\<close> visits the entries in
  list order (Go leaves the order open). \<open>map[*Client]bool\<close> is only ever
  assigned \<open>true\<close>, so it is the list of its keys.
\<close>

record Room =
  Name :: string
  Clients :: "cid list"

record Hub =
  rooms :: "(string \<times> Room) list"
  history :: "Notification list"

definition NewHub :: Hub where
  "NewHub = \<lparr>rooms = [], history = []\<rparr>"

subsection \<open>Channel sends\<close>

text \<open>\<open>select { case c.send <- msg: default: }\<close>: the message is queued when the
  buffer has room and dropped otherwise; the select never waits.\<close>

definition try_send :: "chan \<Rightarrow> Message \<Rightarrow> chan" where
  "try_send ch m = (if length (buf ch) < cap ch then ch\<lparr>buf := buf ch @ [m]\<rparr> else ch)"

text \<open>\<open>c.send <- msg\<close>: the send returns at once when the buffer has room; on a full
  buffer the sender is parked until the receiver takes a message, which is the result
  \<open>None\<close> of the step.\<close>

definition send_blocking :: "chan \<Rightarrow> Message \<Rightarrow> chan option" where
  "send_blocking ch m = (if length (buf ch) < cap ch then Some (ch\<lparr>buf := buf ch @ [m]\<rparr>) else None)"

text \<open>The two sends on the mailbox of the client at an address.\<close>

definition deliver :: "cid \<Rightarrow> Message \<Rightarrow> heap \<Rightarrow> heap" where
  "deliver c m \<mu> = \<mu>(c := (\<mu> c)\<lparr>send := try_send (send (\<mu> c)) m\<rparr>)"

definition deliver_blocking :: "cid \<Rightarrow> Message \<Rightarrow> heap \<Rightarrow> heap option" where
  "deliver_blocking c m \<mu> =
     (case send_blocking (send (\<mu> c)) m of
        None \<Rightarrow> None
      | Some ch \<Rightarrow> Some (\<mu>(c := (\<mu> c)\<lparr>send := ch\<rparr>)))"

subsection \<open>Strings\<close>

text \<open>\<open>strings.HasPrefix\<close> and \<open>strings.TrimPrefix\<close>.\<close>

definition HasPrefix :: "string \<Rightarrow> string \<Rightarrow> bool" where
  "HasPrefix s p = (take (length p) s = p)"

definition TrimPrefix :: "string \<Rightarrow> string \<Rightarrow> string" where
  "TrimPrefix s p = (if HasPrefix s p then drop (length p) s else s)"

text \<open>The verb \<open>%d\<close> of \<open>fmt.Sprintf\<close> on a length.\<close>

fun Itoa :: "nat \<Rightarrow> string" where
  "Itoa n = (if n < 10 then [''0123456789'' ! n]
             else Itoa (n div 10) @ [''0123456789'' ! (n mod 10)])"

declare Itoa.simps [simp del]

definition newline :: string where
  "newline = [CHR 0x0A]"

subsection \<open>Broadcast and user list\<close>

text \<open>\<open>broadcastToRoom\<close> only reads the hub: it returns at the failed lookup, and
  otherwise ranges over the room's clients with the non-blocking send.\<close>

definition broadcastToRoom :: "Hub \<Rightarrow> string \<Rightarrow> Message \<Rightarrow> heap \<Rightarrow> heap" where
  "broadcastToRoom h roomName msg \<mu> =
     (case map_of (rooms h) roomName of
        None \<Rightarrow> \<mu>
      | Some r \<Rightarrow> fold (\<lambda>c. deliver c msg) (Clients r) \<mu>)"

text \<open>\<open>sendUserListToRoom\<close>: the text built by \<open>Sprintf\<close> and the loop over the
  usernames, the message, and the broadcast of it.\<close>

definition userListText :: "string \<Rightarrow> string list \<Rightarrow> string" where
  "userListText roomName users =
     ''Users in '' @ [CHR 0x27] @ roomName @ [CHR 0x27] @ '' ('' @ Itoa (length users) @ ''):'' @ newline
       @ concat (map (\<lambda>u. ''- '' @ u @ newline) users)"

definition userListMessage :: "string \<Rightarrow> string list \<Rightarrow> string \<Rightarrow> Message" where
  "userListMessage roomName users now =
     \<lparr>Type = ''user_list'', Room = roomName, Username = ''SYSTEM'',
      Text = userListText roomName users, Time = now\<rparr>"

definition sendUserListToRoom :: "Hub \<Rightarrow> string \<Rightarrow> string \<Rightarrow> heap \<Rightarrow> heap" where
  "sendUserListToRoom h roomName now \<mu> =
     (case map_of (rooms h) roomName of
        None \<Rightarrow> \<mu>
      | Some r \<Rightarrow>
          (let users = map (\<lambda>c. username (\<mu> c)) (Clients r);
               msg = userListMessage roomName users now
           in broadcastToRoom h roomName msg \<mu>))"

subsection \<open>Registration\<close>

text \<open>The room stored under a key is a \<open>*Room\<close>: a write through the pointer
  found under key \<open>k\<close> is a write to that entry of the map.\<close>

definition setRoom :: "Hub \<Rightarrow> string \<Rightarrow> Room \<Rightarrow> Hub" where
  "setRoom h k r = h\<lparr>rooms := AList.update k r (rooms h)\<rparr>"

text \<open>\<open>getOrCreateRoom\<close> returns the hub too, since it may have stored a new room.\<close>

definition getOrCreateRoom :: "Hub \<Rightarrow> string \<Rightarrow> Hub \<times> Room" where
  "getOrCreateRoom h name =
     (case map_of (rooms h) name of
        Some r \<Rightarrow> (h, r)
      | None \<Rightarrow>
          (let r = \<lparr>Name = name, Clients = []\<rparr>
           in (h\<lparr>rooms := AList.update name r (rooms h)\<rparr>, r)))"

text \<open>The \<open>join\<close> message of \<open>addClientToRoom\<close>.\<close>

definition joinMessage :: "string \<Rightarrow> string \<Rightarrow> string \<Rightarrow> Message" where
  "joinMessage roomName user now =
     \<lparr>Type = ''join'', Room = roomName, Username = user, Text = user @ '' joined'', Time = now\<rparr>"

text \<open>The \<open>switch\<close> of the history loop: whether notification \<open>n\<close> is replayed
  to the joining client.\<close>

definition replayWanted :: "Client \<Rightarrow> Notification \<Rightarrow> bool" where
  "replayWanted client n =
     (if Target n = ''all'' then True
      else if HasPrefix (Target n) ''room:'' then TrimPrefix (Target n) ''room:'' = room client
      else if HasPrefix (Target n) ''user:'' then TrimPrefix (Target n) ''user:'' = username client
      else False)"

text \<open>The message \<open>nj\<close> of the history loop, and the loop with its blocking send.\<close>

definition replayMessage :: "Client \<Rightarrow> Notification \<Rightarrow> Message" where
  "replayMessage client n =
     \<lparr>Type = ''system'', Room = room client, Username = ''SYSTEM'',
      Text = ''[NOTIF] '' @ Title n @ '': '' @ Message n, Time = Timestamp n\<rparr>"

fun replayHistory :: "cid \<Rightarrow> Notification list \<Rightarrow> heap \<Rightarrow> heap option" where
  "replayHistory c [] \<mu> = Some \<mu>"
| "replayHistory c (n # ns) \<mu> =
     (if replayWanted (\<mu> c) n
      then (case deliver_blocking c (replayMessage (\<mu> c) n) \<mu> of
              None \<Rightarrow> None
            | Some \<mu>' \<Rightarrow> replayHistory c ns \<mu>')
      else replayHistory c ns \<mu>)"

text \<open>\<open>addClientToRoom\<close>; \<open>tj\<close> and \<open>tu\<close> are the two readings of the clock.\<close>

definition addClientToRoom :: "Hub \<Rightarrow> cid \<Rightarrow> string \<Rightarrow> string \<Rightarrow> heap \<Rightarrow> (Hub \<times> heap) option" where
  "addClientToRoom h client tj tu \<mu> =
     (let (h1, r) = getOrCreateRoom h (room (\<mu> client));
          r' = r\<lparr>Clients := List.insert client (Clients r)\<rparr>;
          h2 = setRoom h1 (room (\<mu> client)) r';
          \<mu>1 = broadcastToRoom h2 (Name r') (joinMessage (Name r') (username (\<mu> client)) tj) \<mu>
      in case replayHistory client (history h2) \<mu>1 of
           None \<Rightarrow> None
         | Some \<mu>2 \<Rightarrow> Some (h2, sendUserListToRoom h2 (Name r') tu \<mu>2))"

subsection \<open>Unregistration\<close>

text \<open>\<open>removeClientFromRoom\<close>; \<open>tv\<close> and \<open>tu\<close> are the two readings of the clock.
  The room is looked up under the client's room field; the delete is guarded by the
  presence test, the two broadcasts and the deletion of an emptied room are not.\<close>

definition leaveMessage :: "string \<Rightarrow> string \<Rightarrow> string \<Rightarrow> Message" where
  "leaveMessage roomName user now =
     \<lparr>Type = ''leave'', Room = roomName, Username = user, Text = user @ '' left'', Time = now\<rparr>"

definition removeClientFromRoom :: "Hub \<Rightarrow> cid \<Rightarrow> string \<Rightarrow> string \<Rightarrow> heap \<Rightarrow> Hub \<times> heap" where
  "removeClientFromRoom h client tv tu \<mu> =
     (case map_of (rooms h) (room (\<mu> client)) of
        None \<Rightarrow> (h, \<mu>)
      | Some r \<Rightarrow>
          (let r' = (if client \<in> set (Clients r)
                     then r\<lparr>Clients := removeAll client (Clients r)\<rparr> else r);
               h1 = setRoom h (room (\<mu> client)) r';
               remaining = length (Clients r');
               \<mu>1 = broadcastToRoom h1 (Name r') (leaveMessage (Name r') (username (\<mu> client)) tv) \<mu>;
               \<mu>2 = sendUserListToRoom h1 (Name r') tu \<mu>1;
               h2 = (if remaining = 0 then h1\<lparr>rooms := AList.delete (Name r') (rooms h1)\<rparr> else h1)
           in (h2, \<mu>2)))"

subsection \<open>Commands\<close>

text \<open>The replies of \<open>handleCommand\<close>: all from \<open>SYSTEM\<close>, in the caller's room.\<close>

definition systemReply :: "Client \<Rightarrow> string \<Rightarrow> string \<Rightarrow> string \<Rightarrow> Message" where
  "systemReply client ty body now =
     \<lparr>Type = ty, Room = room client, Username = ''SYSTEM'', Text = body, Time = now\<rparr>"

definition roomsText :: "string list \<Rightarrow> string" where
  "roomsText names = ''Rooms:'' @ newline @ concat (map (\<lambda>n. ''- '' @ n @ newline) names)"

definition roomDetails :: "Hub \<Rightarrow> (string \<times> nat) list" where
  "roomDetails h = map (\<lambda>(name, r). (name, length (Clients r))) (rooms h)"

text \<open>
  \<open>handleCommand\<close>. \<open>json.MarshalIndent\<close> is the library's: the model takes it as the
  parameter \<open>marshal\<close>, applied to total\_users, total\_rooms and room\_details.
\<close>

definition handleCommand ::
  "(nat \<Rightarrow> nat \<Rightarrow> (string \<times> nat) list \<Rightarrow> string) \<Rightarrow> Hub \<Rightarrow> cid \<Rightarrow> string \<Rightarrow> string \<Rightarrow> heap \<Rightarrow> heap option" where
  "handleCommand marshal h client cmd now \<mu> =
     (if cmd = ''/users'' then Some (sendUserListToRoom h (room (\<mu> client)) now \<mu>)
      else if cmd = ''/stats'' then
        (let details = roomDetails h;
             totalUsers = sum_list (map snd details);
             totalRooms = length details
         in deliver_blocking client
              (systemReply (\<mu> client) ''stats'' (marshal totalUsers totalRooms details) now) \<mu>)
      else if cmd = ''/rooms'' then
        deliver_blocking client
          (systemReply (\<mu> client) ''system'' (roomsText (map fst (rooms h))) now) \<mu>
      else deliver_blocking client (systemReply (\<mu> client) ''system'' ''Unknown command'' now) \<mu>)"

subsection \<open>Notifications\<close>

text \<open>\<open>addNotification\<close>; \<open>uuid\<close> is what \<open>uuid.NewString()\<close> returns.\<close>

definition addNotification :: "Hub \<Rightarrow> string \<Rightarrow> Notification \<Rightarrow> Hub" where
  "addNotification h uuid n =
     (let n' = (if ID n = [] then n\<lparr>ID := uuid\<rparr> else n);
          hist = history h @ [n']
      in h\<lparr>history := (if length hist > 50 then drop (length hist - 50) hist else hist)\<rparr>)"

text \<open>The \<open>system\<close> message of \<open>routeNotification\<close> for a room name, and the two
  nested loops of its \<open>user:\<close> case with their blocking send.\<close>

definition adminMessage :: "string \<Rightarrow> Notification \<Rightarrow> Message" where
  "adminMessage roomName n =
     \<lparr>Type = ''system'', Room = roomName, Username = ''ADMIN'',
      Text = Title n @ '': '' @ Message n, Time = Timestamp n\<rparr>"

fun notifyClients :: "string \<Rightarrow> Message \<Rightarrow> cid list \<Rightarrow> heap \<Rightarrow> heap option" where
  "notifyClients user msg [] \<mu> = Some \<mu>"
| "notifyClients user msg (c # cs) \<mu> =
     (if username (\<mu> c) = user
      then (case deliver_blocking c msg \<mu> of
              None \<Rightarrow> None
            | Some \<mu>' \<Rightarrow> notifyClients user msg cs \<mu>')
      else notifyClients user msg cs \<mu>)"

fun notifyRooms :: "string \<Rightarrow> Notification \<Rightarrow> Room list \<Rightarrow> heap \<Rightarrow> heap option" where
  "notifyRooms user n [] \<mu> = Some \<mu>"
| "notifyRooms user n (r # rs) \<mu> =
     (case notifyClients user (adminMessage (Name r) n) (Clients r) \<mu> of
        None \<Rightarrow> None
      | Some \<mu>' \<Rightarrow> notifyRooms user n rs \<mu>')"

text \<open>\<open>routeNotification\<close>: the history first, then the \<open>switch\<close>, which has no
  default case.\<close>

definition routeNotification :: "Hub \<Rightarrow> string \<Rightarrow> Notification \<Rightarrow> heap \<Rightarrow> (Hub \<times> heap) option" where
  "routeNotification h uuid n \<mu> =
     (let h1 = addNotification h uuid n in
      if Target n = ''all'' then
        Some (h1, fold (\<lambda>name. broadcastToRoom h1 name (adminMessage name n)) (map fst (rooms h1)) \<mu>)
      else if HasPrefix (Target n) ''room:'' then
        (let rm = TrimPrefix (Target n) ''room:''
         in Some (h1, broadcastToRoom h1 rm (adminMessage rm n) \<mu>))
      else if HasPrefix (Target n) ''user:'' then
        (case notifyRooms (TrimPrefix (Target n) ''user:'') n (map snd (rooms h1)) \<mu> of
           None \<Rightarrow> None
         | Some \<mu>' \<Rightarrow> Some (h1, \<mu>'))
      else Some (h1, \<mu>))"

subsection \<open>The control loop\<close>

text \<open>One turn of the \<open>select\<close> of \<open>Hub.run\<close>, on the request it received.\<close>

datatype request = Register cid string string | Unregister cid string string | Broadcast Message

fun run :: "request \<Rightarrow> Hub \<times> heap \<Rightarrow> (Hub \<times> heap) option" where
  "run (Register c tj tu) (h, \<mu>) = addClientToRoom h c tj tu \<mu>"
| "run (Unregister c tv tu) (h, \<mu>) = Some (removeClientFromRoom h c tv tu \<mu>)"
| "run (Broadcast msg) (h, \<mu>) = Some (h, broadcastToRoom h (Room msg) msg \<mu>)"

fun runAll :: "request list \<Rightarrow> Hub \<times> heap \<Rightarrow> (Hub \<times> heap) option" where
  "runAll [] s = Some s"
| "runAll (q # qs) s = (case run q s of None \<Rightarrow> None | Some s' \<Rightarrow> runAll qs s')"

text \<open>Where the requests come from. \<open>serveWs\<close> builds a new \<open>Client\<close>, sends it
  on \<open>register\<close> and runs \<open>readPump\<close>, whose deferred function sends it on
  \<open>unregister\<close>; there is no other send on either channel. So the loop receives each
  client once on \<open>register\<close> and, after that, at most once on \<open>unregister\<close>.
  \<open>served live seen qs\<close> checks a sequence of requests for this: \<open>seen\<close> are the
  clients registered so far, \<open>live\<close> those of them not yet unregistered.\<close>

fun served :: "cid list \<Rightarrow> cid list \<Rightarrow> request list \<Rightarrow> bool" where
  "served live seen [] = True"
| "served live seen (Register c tj tu # qs) = (c \<notin> set seen \<and> served (c # live) (c # seen) qs)"
| "served live seen (Unregister c tv tu # qs) = (c \<in> set live \<and> served (removeAll c live) seen qs)"
| "served live seen (Broadcast msg # qs) = served live seen qs"

subsection \<open>Sessions, well-formed hubs, mailboxes\<close>

text \<open>The Client that \<open>serveWs\<close> builds: an empty mailbox of capacity 256.\<close>

definition serveWsClient :: "string \<Rightarrow> string \<Rightarrow> Client" where
  "serveWsClient user rm = \<lparr>send = \<lparr>buf = [], cap = 256\<rparr>, username = user, room = rm\<rparr>"

text \<open>What a Go map gives for free and a list does not: the keys of \<open>rooms\<close> are
  distinct, as are the keys of every \<open>Clients\<close>; and each room is stored under its own
  name, as \<open>getOrCreateRoom\<close> stores it.\<close>

definition wf_hub :: "Hub \<Rightarrow> bool" where
  "wf_hub h = (distinct (map fst (rooms h)) \<and>
               (\<forall>(k, r) \<in> set (rooms h). Name r = k \<and> distinct (Clients r)))"

definition pending :: "heap \<Rightarrow> cid \<Rightarrow> Message list" where
  "pending \<mu> c = buf (send (\<mu> c))"

definition full :: "heap \<Rightarrow> cid \<Rightarrow> bool" where
  "full \<mu> c = (cap (send (\<mu> c)) \<le> length (buf (send (\<mu> c))))"

text \<open>The members of the room stored under a name; none when there is no such room.\<close>

definition members :: "Hub \<Rightarrow> string \<Rightarrow> cid list" where
  "members h name = (case map_of (rooms h) name of None \<Rightarrow> [] | Some r \<Rightarrow> Clients r)"

subsection \<open>Example states\<close>

definition lobbyHub :: Hub where
  "lobbyHub = \<lparr>rooms = [(''lobby'', \<lparr>Name = ''lobby'', Clients = [1, 2]\<rparr>),
                         (''r2'', \<lparr>Name = ''r2'', Clients = [3]\<rparr>)],
               history = []\<rparr>"

definition lobbyHeap :: heap where
  "lobbyHeap = (\<lambda>c. if c = 1 then serveWsClient ''A'' ''lobby''
                    else if c = 2 then serveWsClient ''B'' ''lobby''
                    else serveWsClient ''C'' ''r2'')"

definition chatHi :: Message where
  "chatHi = \<lparr>Type = ''chat'', Room = ''lobby'', Username = ''A'', Text = ''hi'', Time = ''t0''\<rparr>"

definition ghostNotice :: Notification where
  "ghostNotice = \<lparr>ID = ''n1'', Type = ''info'', Title = ''Maintenance'', Message = ''5 min'',
                   Timestamp = ''t1'', Target = ''room:ghost''\<rparr>"

subsection \<open>Counting deliveries, sequences of submissions\<close>

text \<open>The number of messages the mailboxes of \<open>cs\<close> gained from \<open>\<mu>\<close> to \<open>\<mu>'\<close>.\<close>

definition deliveries :: "heap \<Rightarrow> heap \<Rightarrow> cid list \<Rightarrow> nat" where
  "deliveries \<mu> \<mu>' cs = (\<Sum>c\<leftarrow>cs. length (pending \<mu>' c) - length (pending \<mu> c))"

text \<open>A submission as the history keeps it: with the generated id when it came with none.\<close>

definition assignID :: "string \<Rightarrow> Notification \<Rightarrow> Notification" where
  "assignID uuid n = (if ID n = [] then n\<lparr>ID := uuid\<rparr> else n)"

text \<open>Submissions one after the other, each with the id \<open>uuid.NewString()\<close> would give it.\<close>

fun addAll :: "Hub \<Rightarrow> (string \<times> Notification) list \<Rightarrow> Hub" where
  "addAll h [] = h"
| "addAll h ((uuid, n) # ns) = addAll (addNotification h uuid n) ns"

definition notice :: "nat \<Rightarrow> string \<times> Notification" where
  "notice i = (''uuid'', \<lparr>ID = Itoa i, Type = ''info'', Title = ''Maintenance'', Message = ''5 min'',
                          Timestamp = ''t1'', Target = ''all''\<rparr>)"

subsection \<open>Invariants of the room directory\<close>

definition rooms_nonempty :: "Hub \<Rightarrow> bool" where
  "rooms_nonempty h = (\<forall>(k, r) \<in> set (rooms h). Clients r \<noteq> [])"

definition hub_inv :: "Hub \<Rightarrow> bool" where
  "hub_inv h = (wf_hub h \<and> rooms_nonempty h)"

text \<open>Every member of a room carries that room's key in its room field.\<close>

definition placed :: "Hub \<Rightarrow> heap \<Rightarrow> bool" where
  "placed h \<mu> = (\<forall>(k, r) \<in> set (rooms h). \<forall>c \<in> set (Clients r). room (\<mu> c) = k)"

definition t0 :: string where
  "t0 = ''2024-01-01T00:00:00Z''"

text \<open>The lobby example after session 2 (B) has left: session 1 (A) holds the
  \<open>leave\<close> event and the user list.\<close>

definition leftHub :: Hub where
  "leftHub = \<lparr>rooms = [(''lobby'', \<lparr>Name = ''lobby'', Clients = [1]\<rparr>),
                        (''r2'', \<lparr>Name = ''r2'', Clients = [3]\<rparr>)],
              history = []\<rparr>"

definition leftHeap :: heap where
  "leftHeap = lobbyHeap(1 := \<lparr>send = \<lparr>buf = [leaveMessage ''lobby'' ''B'' t0,
                                                userListMessage ''lobby'' [''A''] t0], cap = 256\<rparr>,
                               username = ''A'', room = ''lobby''\<rparr>)"

subsection \<open>What a registration is expected to leave\<close>



definition noticeAll :: Notification where
  "noticeAll = \<lparr>ID = ''a'', Type = ''info'', Title = ''Maintenance'', Message = ''5 min'',
                 Timestamp = ''t1'', Target = ''all''\<rparr>"


definition noticeUserC :: Notification where
  "noticeUserC = \<lparr>ID = ''c'', Type = ''warning'', Title = ''Hello'', Message = ''C'',
                   Timestamp = ''t3'', Target = ''user:C''\<rparr>"

definition noticeEveryone :: Notification where
  "noticeEveryone = \<lparr>ID = ''d'', Type = ''info'', Title = ''News'', Message = ''for everyone'',
                      Timestamp = ''t4'', Target = ''everyone''\<rparr>"


subsection \<open>Audiences\<close>

text \<open>The seats of a directory: every (room key, member) pair, in \<open>range\<close> order; the
  sessions of a hub are the members of all its rooms.\<close>

definition seatsOf :: "(string \<times> Room) list \<Rightarrow> (string \<times> cid) list" where
  "seatsOf al = concat (map (\<lambda>(k, r). map (Pair k) (Clients r)) al)"

definition seats :: "Hub \<Rightarrow> (string \<times> cid) list" where
  "seats h = seatsOf (rooms h)"

definition sessions :: "Hub \<Rightarrow> cid list" where
  "sessions h = map snd (seats h)"

text \<open>The classes of target expressions, read off the \<open>switch\<close> of
  \<open>routeNotification\<close> in its order: the literal \<open>all\<close>, the prefix \<open>room:\<close>, the
  prefix \<open>user:\<close>, and the rest, for which the switch has no case.\<close>

datatype audience = Everyone | InRoom string | Named string | Nobody

definition classify :: "string \<Rightarrow> audience" where
  "classify t =
     (if t = ''all'' then Everyone
      else if HasPrefix t ''room:'' then InRoom (TrimPrefix t ''room:'')
      else if HasPrefix t ''user:'' then Named (TrimPrefix t ''user:'')
      else Nobody)"

text \<open>The seats a target expression selects.\<close>

definition resolveTargets :: "Hub \<Rightarrow> heap \<Rightarrow> string \<Rightarrow> (string \<times> cid) list" where
  "resolveTargets h \<mu> t =
     (case classify t of
        Everyone \<Rightarrow> seats h
      | InRoom X \<Rightarrow> filter (\<lambda>(k, c). k = X) (seats h)
      | Named U \<Rightarrow> filter (\<lambda>(k, c). username (\<mu> c) = U) (seats h)
      | Nobody \<Rightarrow> [])"

text \<open>Offering, seat by seat, the message made for the seat's room to the seat's session
  by the non-blocking send.\<close>

definition offer :: "(string \<Rightarrow> Message) \<Rightarrow> (string \<times> cid) list \<Rightarrow> heap \<Rightarrow> heap" where
  "offer f ps \<mu> = fold (\<lambda>(k, c). deliver c (f k)) ps \<mu>"

section \<open>The broadcast hub of unnamed/part\_007\<close>

text \<open>
  The earlier chat server has no rooms: one set of clients, each with a mailbox of
  byte strings. Its hub closes mailboxes, so a channel also records whether it is
  closed; a send on a closed channel and a second \<open>close\<close> panic. The client's ID
  (used for logging) and its connection are left out.
\<close>

record chan7 =
  buf7 :: "string list"
  cap7 :: nat
  closed :: bool

record Client7 =
  Send :: chan7

type_synonym heap7 = "cid \<Rightarrow> Client7"

record Hub7 =
  clients :: "cid list"

datatype fault = Panic

text \<open>The loop of the broadcast case: a non-blocking send to every client; on a full
  mailbox the \<open>default\<close> branch closes the mailbox and deletes the client.\<close>

fun broadcastClients :: "string \<Rightarrow> cid list \<Rightarrow> Hub7 \<times> heap7 \<Rightarrow> fault + Hub7 \<times> heap7" where
  "broadcastClients message [] s = Inr s"
| "broadcastClients message (c # cs) (h, \<mu>) =
     (if closed (Send (\<mu> c)) then Inl Panic
      else if length (buf7 (Send (\<mu> c))) < cap7 (Send (\<mu> c))
      then broadcastClients message cs
             (h, \<mu>(c := (\<mu> c)\<lparr>Send := (Send (\<mu> c))\<lparr>buf7 := buf7 (Send (\<mu> c)) @ [message]\<rparr>\<rparr>))
      else broadcastClients message cs
             (h\<lparr>clients := removeAll c (clients h)\<rparr>,
              \<mu>(c := (\<mu> c)\<lparr>Send := (Send (\<mu> c))\<lparr>closed := True\<rparr>\<rparr>)))"

datatype request7 = Register7 cid | Unregister7 cid | Broadcast7 string

fun run7 :: "request7 \<Rightarrow> Hub7 \<times> heap7 \<Rightarrow> fault + Hub7 \<times> heap7" where
  "run7 (Register7 c) (h, \<mu>) = Inr (h\<lparr>clients := List.insert c (clients h)\<rparr>, \<mu>)"
| "run7 (Unregister7 c) (h, \<mu>) =
     (if c \<in> set (clients h)
      then (if closed (Send (\<mu> c)) then Inl Panic
            else Inr (h\<lparr>clients := removeAll c (clients h)\<rparr>,
                      \<mu>(c := (\<mu> c)\<lparr>Send := (Send (\<mu> c))\<lparr>closed := True\<rparr>\<rparr>)))
      else Inr (h, \<mu>))"
| "run7 (Broadcast7 message) (h, \<mu>) = broadcastClients message (clients h) (h, \<mu>)"

fun runAll7 :: "request7 list \<Rightarrow> Hub7 \<times> heap7 \<Rightarrow> fault + Hub7 \<times> heap7" where
  "runAll7 [] s = Inr s"
| "runAll7 (q # qs) s = (case run7 q s of Inl e \<Rightarrow> Inl e | Inr s' \<Rightarrow> runAll7 qs s')"

definition full7 :: "heap7 \<Rightarrow> cid \<Rightarrow> bool" where
  "full7 \<mu> c = (cap7 (Send (\<mu> c)) \<le> length (buf7 (Send (\<mu> c))))"

subsection \<open>Example states with a slow session\<close>

definition slowHub :: Hub where
  "slowHub = \<lparr>rooms = [(''lobby'', \<lparr>Name = ''lobby'', Clients = [7, 8]\<rparr>)], history = []\<rparr>"

definition slowHeap :: heap where
  "slowHeap = (\<lambda>c. if c = 7 then \<lparr>send = \<lparr>buf = [], cap = 1\<rparr>, username = ''S'', room = ''lobby''\<rparr>
                   else serveWsClient ''A'' ''lobby'')"

definition chatAgain :: Message where
  "chatAgain = \<lparr>Type = ''chat'', Room = ''lobby'', Username = ''A'', Text = ''again'', Time = ''t1''\<rparr>"

definition slowHub7 :: Hub7 where
  "slowHub7 = \<lparr>clients = [7, 8]\<rparr>"

definition slowHeap7 :: heap7 where
  "slowHeap7 = (\<lambda>c. if c = 7 then \<lparr>Send = \<lparr>buf7 = [], cap7 = 1, closed = False\<rparr>\<rparr>
                    else \<lparr>Send = \<lparr>buf7 = [], cap7 = 256, closed = False\<rparr>\<rparr>)"

text \<open>A stand-in for \<open>json.MarshalIndent\<close> in examples.\<close>

definition demoMarshal :: "nat \<Rightarrow> nat \<Rightarrow> (string \<times> nat) list \<Rightarrow> string" where
  "demoMarshal users nrooms details = Itoa users @ '' users in '' @ Itoa nrooms @ '' rooms''"

section \<open>Properties\<close>

subsection \<open>Auxiliary facts\<close>

lemma deliver_other: "x \<noteq> c \<Longrightarrow> deliver c m \<mu> x = \<mu> x"
  by (simp add: deliver_def)

lemma fold_deliver_notin: "x \<notin> set cs \<Longrightarrow> fold (\<lambda>c. deliver c m) cs \<mu> x = \<mu> x"
  by (induction cs arbitrary: \<mu>) (auto simp: deliver_other)

lemma fold_deliver_in:
  "distinct cs \<Longrightarrow> x \<in> set cs \<Longrightarrow>
     fold (\<lambda>c. deliver c m) cs \<mu> x = (\<mu> x)\<lparr>send := try_send (send (\<mu> x)) m\<rparr>"
proof (induction cs arbitrary: \<mu>)
  case Nil
  then show ?case by simp
next
  case (Cons c cs)
  show ?case
  proof (cases "x = c")
    case True
    with Cons.prems have "x \<notin> set cs" by simp
    then have "fold (\<lambda>c. deliver c m) cs (deliver c m \<mu>) x = deliver c m \<mu> x"
      by (rule fold_deliver_notin)
    also have "\<dots> = (\<mu> x)\<lparr>send := try_send (send (\<mu> x)) m\<rparr>"
      using True by (simp add: deliver_def)
    finally show ?thesis by simp
  next
    case False
    with Cons.prems have "distinct cs" "x \<in> set cs" by simp_all
    from Cons.IH [OF this] False show ?thesis by (simp add: deliver_other)
  qed
qed

lemma broadcastToRoom_absent:
  "map_of (rooms h) X = None \<Longrightarrow> broadcastToRoom h X msg \<mu> = \<mu>"
  by (simp add: broadcastToRoom_def)

lemma room_target:
  "HasPrefix (CHR ''r'' # CHR ''o'' # CHR ''o'' # CHR ''m'' # CHR '':'' # X) ''room:''"
  "TrimPrefix (CHR ''r'' # CHR ''o'' # CHR ''o'' # CHR ''m'' # CHR '':'' # X) ''room:'' = X"
  by (simp_all add: HasPrefix_def TrimPrefix_def)

lemma user_target:
  "HasPrefix (CHR ''u'' # CHR ''s'' # CHR ''e'' # CHR ''r'' # CHR '':'' # U) ''user:''"
  "TrimPrefix (CHR ''u'' # CHR ''s'' # CHR ''e'' # CHR ''r'' # CHR '':'' # U) ''user:'' = U"
  "\<not> HasPrefix (CHR ''u'' # CHR ''s'' # CHR ''e'' # CHR ''r'' # CHR '':'' # U) ''room:''"
  by (simp_all add: HasPrefix_def TrimPrefix_def)

lemma rooms_addNotification: "rooms (addNotification h uuid n) = rooms h"
  by (simp add: addNotification_def Let_def)

lemma last_addNotification:
  "last (history (addNotification h uuid n)) = (if ID n = [] then n\<lparr>ID := uuid\<rparr> else n)"
  by (simp add: addNotification_def Let_def)

subsection \<open>Broadcast to a room that does not exist\<close>

text \<open>
  Claim C10. When no room is stored under the name \<open>X\<close>, \<open>broadcastToRoom\<close> returns
  the heap of sessions as it was: no mailbox changes. The hub's turn on such a broadcast
  request completes and leaves the hub (directory, memberships, history) and every
  mailbox unchanged. A notification with target \<open>room:X\<close> is appended to the history
  (it is its last entry), the directory stays as it was and no mailbox changes.
\<close>

theorem broadcast_to_absent_room_is_noop:
  "map_of (rooms h) X = None \<Longrightarrow>
     broadcastToRoom h X msg \<mu> = \<mu> \<and>
     run (Broadcast (msg\<lparr>Room := X\<rparr>)) (h, \<mu>) = Some (h, \<mu>) \<and>
     (Target n = ''room:'' @ X \<longrightarrow>
        routeNotification h uuid n \<mu> = Some (addNotification h uuid n, \<mu>) \<and>
        rooms (addNotification h uuid n) = rooms h \<and>
        last (history (addNotification h uuid n)) = (if ID n = [] then n\<lparr>ID := uuid\<rparr> else n))"
proof (intro conjI impI)
  assume absent: "map_of (rooms h) X = None"
  show "broadcastToRoom h X msg \<mu> = \<mu>"
    using absent by (rule broadcastToRoom_absent)
  show "run (Broadcast (msg\<lparr>Room := X\<rparr>)) (h, \<mu>) = Some (h, \<mu>)"
    using absent by (simp add: broadcastToRoom_absent)
  show "rooms (addNotification h uuid n) = rooms h"
    by (rule rooms_addNotification)
  show "last (history (addNotification h uuid n)) = (if ID n = [] then n\<lparr>ID := uuid\<rparr> else n)"
    by (rule last_addNotification)
  assume "Target n = ''room:'' @ X"
  with absent show "routeNotification h uuid n \<mu> = Some (addNotification h uuid n, \<mu>)"
    by (simp add: routeNotification_def Let_def broadcastToRoom_absent room_target
        rooms_addNotification)
qed

theorem broadcast_to_absent_room_is_noop_witness:
  "map_of (rooms lobbyHub) ''ghost'' = None \<and>
   Target ghostNotice = ''room:'' @ ''ghost'' \<and>
   broadcastToRoom lobbyHub ''ghost'' chatHi lobbyHeap = lobbyHeap \<and>
   run (Broadcast (chatHi\<lparr>Room := ''ghost''\<rparr>)) (lobbyHub, lobbyHeap) = Some (lobbyHub, lobbyHeap) \<and>
   routeNotification lobbyHub ''u1'' ghostNotice lobbyHeap
     = Some (lobbyHub\<lparr>history := [ghostNotice]\<rparr>, lobbyHeap)"
proof -
  have absent: "map_of (rooms lobbyHub) ''ghost'' = None"
    by (simp add: lobbyHub_def)
  have target: "Target ghostNotice = ''room:'' @ ''ghost''"
    by (simp add: ghostNotice_def)
  have hist: "addNotification lobbyHub ''u1'' ghostNotice = lobbyHub\<lparr>history := [ghostNotice]\<rparr>"
    by (simp add: addNotification_def lobbyHub_def ghostNotice_def)
  from broadcast_to_absent_room_is_noop [OF absent, of chatHi lobbyHeap ghostNotice "''u1''"] absent target hist
  show ?thesis by simp
qed

lemma members_distinct: "wf_hub h \<Longrightarrow> distinct (members h X)"
  by (auto simp: wf_hub_def members_def split: option.splits dest!: map_of_SomeD)

lemma broadcastToRoom_members:
  "broadcastToRoom h X msg \<mu> = fold (\<lambda>c. deliver c msg) (members h X) \<mu>"
  by (simp add: broadcastToRoom_def members_def split: option.splits)

lemma broadcastToRoom_apply:
  "wf_hub h \<Longrightarrow>
     broadcastToRoom h X msg \<mu> c =
       (if c \<in> set (members h X) then (\<mu> c)\<lparr>send := try_send (send (\<mu> c)) msg\<rparr> else \<mu> c)"
  by (simp add: broadcastToRoom_members fold_deliver_in fold_deliver_notin members_distinct)

lemma try_send_room: "length (buf ch) < cap ch \<Longrightarrow> try_send ch m = ch\<lparr>buf := buf ch @ [m]\<rparr>"
  by (simp add: try_send_def)

lemma try_send_full: "cap ch \<le> length (buf ch) \<Longrightarrow> try_send ch m = ch"
  by (simp add: try_send_def)

lemma sum_list_indicator:
  "(\<Sum>x\<leftarrow>xs. if x \<in> A then 1 else 0) = length (filter (\<lambda>x. x \<in> A) xs)"
  by (induction xs) simp_all

lemma count_members:
  assumes "distinct cs" "distinct ms" "set ms \<subseteq> set cs"
  shows "length (filter (\<lambda>x. x \<in> set ms) cs) = length ms"
proof -
  have "length (filter (\<lambda>x. x \<in> set ms) cs) = card ({x. x \<in> set ms} \<inter> set cs)"
    using assms(1) by (rule distinct_length_filter)
  also have "{x. x \<in> set ms} \<inter> set cs = set ms" using assms(3) by auto
  also have "card (set ms) = length ms" using assms(2) by (rule distinct_card)
  finally show ?thesis .
qed

lemma wf_lobbyHub: "wf_hub lobbyHub"
  by (simp add: wf_hub_def lobbyHub_def)

subsection \<open>A chat broadcast reaches every member once\<close>

text \<open>
  Claim C9. In a well-formed hub, when no member of the room \<open>Room msg\<close> has a full
  mailbox, the hub's turn on the broadcast of \<open>msg\<close> completes, leaves the hub as it
  was, appends \<open>msg\<close> itself (so its room, username and text as they were) to the
  mailbox of each member and changes no other session; counted over any duplicate-free
  list of sessions that holds the members, the mailboxes gained exactly as many
  messages as the room has members.
\<close>

theorem chat_broadcast_one_delivery_per_member:
  assumes wf: "wf_hub h"
    and room: "\<forall>c \<in> set (members h (Room msg)). \<not> full \<mu> c"
  shows "\<exists>\<mu>'. run (Broadcast msg) (h, \<mu>) = Some (h, \<mu>') \<and>
           (\<forall>c. \<mu>' c = (if c \<in> set (members h (Room msg))
                         then (\<mu> c)\<lparr>send := (send (\<mu> c))\<lparr>buf := pending \<mu> c @ [msg]\<rparr>\<rparr>
                         else \<mu> c)) \<and>
           (\<forall>cs. distinct cs \<and> set (members h (Room msg)) \<subseteq> set cs \<longrightarrow>
                   deliveries \<mu> \<mu>' cs = length (members h (Room msg)))"
proof -
  let ?M = "members h (Room msg)"
  let ?\<mu>' = "broadcastToRoom h (Room msg) msg \<mu>"
  have pt: "?\<mu>' c = (if c \<in> set ?M
                         then (\<mu> c)\<lparr>send := (send (\<mu> c))\<lparr>buf := pending \<mu> c @ [msg]\<rparr>\<rparr>
                         else \<mu> c)" for c
  proof (cases "c \<in> set ?M")
    case True
    with room have "length (buf (send (\<mu> c))) < cap (send (\<mu> c))"
      by (auto simp: full_def)
    then show ?thesis
      using True by (simp add: broadcastToRoom_apply [OF wf] try_send_room pending_def)
  next
    case False
    then show ?thesis by (simp add: broadcastToRoom_apply [OF wf])
  qed
  have inc: "length (pending ?\<mu>' c) - length (pending \<mu> c) = (if c \<in> set ?M then 1 else 0)" for c
    by (simp add: pt pending_def)
  have cnt: "deliveries \<mu> ?\<mu>' cs = length ?M" if "distinct cs" "set ?M \<subseteq> set cs" for cs
  proof -
    have "deliveries \<mu> ?\<mu>' cs = length (filter (\<lambda>x. x \<in> set ?M) cs)"
      unfolding deliveries_def inc by (rule sum_list_indicator)
    also have "\<dots> = length ?M"
      using that(1) members_distinct [OF wf] that(2) by (rule count_members)
    finally show ?thesis .
  qed
  have "run (Broadcast msg) (h, \<mu>) = Some (h, ?\<mu>')" by simp
  with pt cnt show ?thesis by blast
qed

theorem chat_broadcast_one_delivery_per_member_witness:
  "wf_hub lobbyHub \<and> members lobbyHub (Room chatHi) = [1, 2] \<and>
   \<not> full lobbyHeap 1 \<and> \<not> full lobbyHeap 2 \<and>
   pending (broadcastToRoom lobbyHub ''lobby'' chatHi lobbyHeap) 1 = [chatHi] \<and>
   pending (broadcastToRoom lobbyHub ''lobby'' chatHi lobbyHeap) 2 = [chatHi] \<and>
   pending (broadcastToRoom lobbyHub ''lobby'' chatHi lobbyHeap) 3 = [] \<and>
   deliveries lobbyHeap (broadcastToRoom lobbyHub ''lobby'' chatHi lobbyHeap) [1, 2, 3] = 2"
proof -
  have m: "members lobbyHub (Room chatHi) = [1, 2]"
    by (simp add: members_def lobbyHub_def chatHi_def)
  have nf: "\<not> full lobbyHeap 1" "\<not> full lobbyHeap 2"
    by (simp_all add: full_def lobbyHeap_def serveWsClient_def)
  then have room: "\<forall>c \<in> set (members lobbyHub (Room chatHi)). \<not> full lobbyHeap c"
    by (simp add: m)
  from chat_broadcast_one_delivery_per_member [OF wf_lobbyHub room] obtain \<mu>'
    where run: "run (Broadcast chatHi) (lobbyHub, lobbyHeap) = Some (lobbyHub, \<mu>')"
      and pt: "\<And>c. \<mu>' c = (if c \<in> set (members lobbyHub (Room chatHi))
                 then (lobbyHeap c)\<lparr>send := (send (lobbyHeap c))\<lparr>buf := pending lobbyHeap c @ [chatHi]\<rparr>\<rparr>
                 else lobbyHeap c)"
      and cnt: "\<And>cs. distinct cs \<and> set (members lobbyHub (Room chatHi)) \<subseteq> set cs \<Longrightarrow>
                 deliveries lobbyHeap \<mu>' cs = length (members lobbyHub (Room chatHi))"
    by blast
  from run have eq: "broadcastToRoom lobbyHub ''lobby'' chatHi lobbyHeap = \<mu>'"
    by (simp add: chatHi_def)
  have "pending \<mu>' 1 = [chatHi]" "pending \<mu>' 2 = [chatHi]" "pending \<mu>' 3 = []"
    by (simp_all add: pt m pending_def lobbyHeap_def serveWsClient_def)
  moreover have "deliveries lobbyHeap \<mu>' [1, 2, 3] = 2"
    using cnt [of "[1, 2, 3]"] by (simp add: m)
  ultimately show ?thesis
    using wf_lobbyHub m nf by (simp add: eq)
qed

lemma length_history_addNotification: "length (history (addNotification h uuid n)) \<le> 50"
  by (simp add: addNotification_def Let_def)

lemma history_addNotification:
  "history (addNotification h uuid n) =
     drop (Suc (length (history h)) - 50) (history h @ [assignID uuid n])"
  by (simp add: addNotification_def Let_def assignID_def)

lemma history_addAll:
  "history (addAll h ns) =
     drop (length (history h) + length ns - 50) (history h @ map (\<lambda>(u, n). assignID u n) ns)"
  if "length (history h) \<le> 50"
  using that
proof (induction ns arbitrary: h)
  case Nil
  then show ?case by simp
next
  case (Cons p ns)
  obtain u n where p: "p = (u, n)" by (cases p)
  let ?h = "addNotification h u n"
  let ?rest = "map (\<lambda>(u, n). assignID u n) ns"
  have le: "length (history ?h) \<le> 50" by (rule length_history_addNotification)
  have "history (addAll h (p # ns)) = history (addAll ?h ns)" by (simp add: p)
  also have "\<dots> = drop (length (history ?h) + length ns - 50) (history ?h @ ?rest)"
    by (rule Cons.IH [OF le])
  also have "\<dots> = drop (length (history h) + length (p # ns) - 50)
                      (history h @ map (\<lambda>(u, n). assignID u n) (p # ns))"
  proof (cases "length (history h) < 50")
    case True
    then have "history ?h = history h @ [assignID u n]"
      by (simp add: history_addNotification)
    then show ?thesis by (simp add: p)
  next
    case False
    with Cons.prems have full: "length (history h) = 50" by simp
    then have "history ?h = drop 1 (history h @ [assignID u n])"
      by (simp add: history_addNotification)
    moreover have "drop 1 (history h @ [assignID u n]) @ ?rest
                     = drop 1 (history h @ assignID u n # ?rest)"
      using full by (cases "history h") simp_all
    moreover have "length (drop 1 (history h @ [assignID u n])) = 50"
      using full by simp
    ultimately show ?thesis using full by (simp add: p)
  qed
  finally show ?case .
qed

lemma routeNotification_hub:
  "routeNotification h uuid n \<mu> = Some (h', \<mu>') \<Longrightarrow> h' = addNotification h uuid n"
  by (auto simp: routeNotification_def Let_def split: if_splits option.splits)

subsection \<open>The notification history keeps the newest 50\<close>

text \<open>
  Claim C6. After any submission the history holds at most 50 notifications, and a
  dispatch that returns leaves the hub that \<open>addNotification\<close> made. Starting from a
  hub with an empty history, after the submissions \<open>ns\<close> the history is the last 50
  of them (each with its id assigned), in the order of submission, so it never holds
  more than 50; after 51 submissions it is all of them but the first.
\<close>

theorem notification_history_keeps_newest_50:
  "length (history (addNotification h uuid n)) \<le> 50 \<and>
   (routeNotification h uuid n \<mu> = Some (h', \<mu>') \<longrightarrow> h' = addNotification h uuid n) \<and>
   (history h = [] \<longrightarrow>
      length (history (addAll h ns)) \<le> 50 \<and>
      history (addAll h ns) = drop (length ns - 50) (map (\<lambda>(u, n). assignID u n) ns) \<and>
      (length ns = 51 \<longrightarrow> history (addAll h ns) = tl (map (\<lambda>(u, n). assignID u n) ns)))"
proof (intro conjI impI)
  show "length (history (addNotification h uuid n)) \<le> 50"
    by (rule length_history_addNotification)
  show "h' = addNotification h uuid n" if "routeNotification h uuid n \<mu> = Some (h', \<mu>')"
    using that by (rule routeNotification_hub)
  assume e: "history h = []"
  then have "length (history h) \<le> 50" by simp
  from history_addAll [OF this, of ns] e
  show eq: "history (addAll h ns) = drop (length ns - 50) (map (\<lambda>(u, n). assignID u n) ns)"
    by simp
  show "length (history (addAll h ns)) \<le> 50"
    unfolding eq by simp
  show "history (addAll h ns) = tl (map (\<lambda>(u, n). assignID u n) ns)" if "length ns = 51"
    unfolding eq using that by (simp add: drop_Suc)
qed

theorem notification_history_keeps_newest_50_witness:
  "history NewHub = [] \<and> length (map notice [0..<51]) = 51 \<and>
   routeNotification NewHub ''uuid'' (snd (notice 0)) lobbyHeap
     = Some (addNotification NewHub ''uuid'' (snd (notice 0)), lobbyHeap) \<and>
   length (history (addAll NewHub (map notice [0..<51]))) = 50 \<and>
   history (addAll NewHub (map notice [0..<51])) = map (snd \<circ> notice) [1..<51]"
proof -
  have e: "history NewHub = []" by (simp add: NewHub_def)
  have l: "length (map notice [0..<51]) = 51" by simp
  have r: "routeNotification NewHub ''uuid'' (snd (notice 0)) lobbyHeap
     = Some (addNotification NewHub ''uuid'' (snd (notice 0)), lobbyHeap)"
    by (simp add: routeNotification_def Let_def notice_def rooms_addNotification NewHub_def)
  have a: "assignID u n = n" if "(u, n) = notice i" for u n i
    using that by (simp add: notice_def assignID_def Itoa.simps [of i])
  have "tl (map (\<lambda>(u, n). assignID u n) (map notice [0..<51])) = map (snd \<circ> notice) [1..<51]"
  proof -
    have "map (\<lambda>(u, n). assignID u n) (map notice [0..<51]) = map (snd \<circ> notice) [0..<51]"
      by (rule list.map_cong0 [THEN trans [OF list.map_comp]]) (auto simp: a [OF sym] split: prod.splits)
    then show ?thesis by (simp add: upt_rec [of 0 51] del: upt_rec_numeral)
  qed
  have t: "tl (map (\<lambda>(u, n). assignID u n) (map notice [0..<51])) = map (snd \<circ> notice) [1..<51]"
    by fact
  from notification_history_keeps_newest_50 [of NewHub "''uuid''" "snd (notice 0)" lobbyHeap
      "addNotification NewHub ''uuid'' (snd (notice 0))" lobbyHeap "map notice [0..<51]"] e l
  have "history (addAll NewHub (map notice [0..<51]))
          = tl (map (\<lambda>(u, n). assignID u n) (map notice [0..<51]))"
    by blast
  then have h: "history (addAll NewHub (map notice [0..<51])) = map (snd \<circ> notice) [1..<51]"
    by (simp only: t)
  have "length (history (addAll NewHub (map notice [0..<51]))) = 50"
    unfolding h by simp
  with h e l r show ?thesis by blast
qed

lemma wf_hub_lookup:
  "wf_hub h \<longleftrightarrow> distinct (map fst (rooms h)) \<and>
     (\<forall>k r. map_of (rooms h) k = Some r \<longrightarrow> Name r = k \<and> distinct (Clients r))"
  by (auto simp: wf_hub_def)

lemma hub_inv_lookup:
  "hub_inv h \<longleftrightarrow> distinct (map fst (rooms h)) \<and>
     (\<forall>k r. map_of (rooms h) k = Some r \<longrightarrow> Name r = k \<and> distinct (Clients r) \<and> Clients r \<noteq> [])"
  by (auto simp: hub_inv_def wf_hub_def rooms_nonempty_def)

lemma insert_not_Nil: "List.insert c cs \<noteq> []"
  by (auto simp: List.insert_def)

text \<open>The hub that a completed registration leaves.\<close>

lemma addClientToRoom_rooms:
  assumes "addClientToRoom h c tj tu \<mu> = Some (h', \<mu>')"
  shows "history h' = history h"
    and "rooms h' = AList.update (room (\<mu> c))
            (case map_of (rooms h) (room (\<mu> c)) of
               None \<Rightarrow> \<lparr>Name = room (\<mu> c), Clients = [c]\<rparr>
             | Some r \<Rightarrow> r\<lparr>Clients := List.insert c (Clients r)\<rparr>) (rooms h)"
  using assms
  by (auto simp: addClientToRoom_def getOrCreateRoom_def setRoom_def Let_def
      split: option.splits)

lemma removeClientFromRoom_rooms:
  assumes "wf_hub h"
  shows "rooms (fst (removeClientFromRoom h c tv tu \<mu>)) =
           (case map_of (rooms h) (room (\<mu> c)) of
              None \<Rightarrow> rooms h
            | Some r \<Rightarrow>
                if removeAll c (Clients r) = [] then AList.delete (room (\<mu> c)) (rooms h)
                else AList.update (room (\<mu> c)) (r\<lparr>Clients := removeAll c (Clients r)\<rparr>) (rooms h))"
proof (cases "map_of (rooms h) (room (\<mu> c))")
  case None
  then show ?thesis by (simp add: removeClientFromRoom_def)
next
  case (Some r)
  with assms have nm: "Name r = room (\<mu> c)" by (simp add: wf_hub_lookup del: map_of_eq_Some_iff)
  have upd: "c \<notin> set (Clients r) \<Longrightarrow> AList.update (room (\<mu> c)) r (rooms h) = rooms h"
    using Some by (simp add: AList.update_triv)
  show ?thesis
    using Some nm
    by (cases "c \<in> set (Clients r)")
      (simp_all add: removeClientFromRoom_def setRoom_def Let_def AList.delete_update_same upd)
qed

lemma history_removeClientFromRoom:
  "history (fst (removeClientFromRoom h c tv tu \<mu>)) = history h"
  by (simp add: removeClientFromRoom_def setRoom_def Let_def split: option.splits)

lemma hub_inv_NewHub: "hub_inv NewHub"
  by (simp add: hub_inv_lookup NewHub_def)

lemma hub_inv_add:
  assumes inv: "hub_inv h" and add: "addClientToRoom h c tj tu \<mu> = Some (h', \<mu>')"
  shows "hub_inv h'"
proof -
  note r = addClientToRoom_rooms(2) [OF add]
  from inv have d: "distinct (map fst (rooms h))"
    and old: "\<And>k r. map_of (rooms h) k = Some r \<Longrightarrow> Name r = k \<and> distinct (Clients r) \<and> Clients r \<noteq> []"
    unfolding hub_inv_lookup by blast+
  have "distinct (map fst (rooms h'))"
    unfolding r using d by (rule AList.distinct_update)
  moreover have "Name r' = k \<and> distinct (Clients r') \<and> Clients r' \<noteq> []"
    if "map_of (rooms h') k = Some r'" for k r'
    using that old [of k r'] old [of "room (\<mu> c)"]
    unfolding r AList.update_conv'
    by (auto simp: insert_not_Nil simp del: map_of_eq_Some_iff split: if_splits option.splits)
  ultimately show ?thesis unfolding hub_inv_lookup by blast
qed

lemma hub_inv_remove:
  assumes inv: "hub_inv h"
  shows "hub_inv (fst (removeClientFromRoom h c tv tu \<mu>))"
proof -
  let ?h' = "fst (removeClientFromRoom h c tv tu \<mu>)"
  from inv have wf: "wf_hub h" by (simp add: hub_inv_def)
  note r = removeClientFromRoom_rooms [OF wf, of c tv tu \<mu>]
  from inv have d: "distinct (map fst (rooms h))"
    and old: "\<And>k r. map_of (rooms h) k = Some r \<Longrightarrow> Name r = k \<and> distinct (Clients r) \<and> Clients r \<noteq> []"
    unfolding hub_inv_lookup by blast+
  have "distinct (map fst (rooms ?h'))"
    unfolding r using d
    by (simp add: AList.distinct_update AList.distinct_delete split: option.splits)
  moreover have "Name r' = k \<and> distinct (Clients r') \<and> Clients r' \<noteq> []"
    if "map_of (rooms ?h') k = Some r'" for k r'
  proof (cases "map_of (rooms h) (room (\<mu> c))")
    case None
    with that old [of k r'] show ?thesis unfolding r by simp
  next
    case (Some r0)
    with that old [of k r'] old [of "room (\<mu> c)" r0] show ?thesis
      unfolding r
      by (auto simp: AList.update_conv' AList.delete_conv' distinct_removeAll
          simp del: map_of_eq_Some_iff split: if_splits)
  qed
  ultimately show ?thesis unfolding hub_inv_lookup by blast
qed

lemma hub_inv_run:
  assumes "hub_inv h" "run q (h, \<mu>) = Some (h', \<mu>')"
  shows "hub_inv h'"
proof (cases q)
  case (Register c tj tu)
  with assms show ?thesis by (auto intro: hub_inv_add)
next
  case (Unregister c tv tu)
  with assms(2) have "h' = fst (removeClientFromRoom h c tv tu \<mu>)" by auto
  with assms(1) show ?thesis by (simp add: hub_inv_remove)
next
  case (Broadcast msg)
  with assms show ?thesis by auto
qed

lemma hub_inv_runAll:
  "hub_inv (fst s) \<Longrightarrow> runAll qs s = Some s' \<Longrightarrow> hub_inv (fst s')"
proof (induction qs arbitrary: s)
  case Nil
  then show ?case by simp
next
  case (Cons q qs)
  from Cons.prems(2) obtain s1 where s1: "run q s = Some s1" and rest: "runAll qs s1 = Some s'"
    by (auto split: option.splits)
  from Cons.prems(1) s1 have "hub_inv (fst s1)"
    using hub_inv_run [of "fst s" q "snd s" "fst s1" "snd s1"] by simp
  then show ?case using rest by (rule Cons.IH)
qed

lemma present_iff_members:
  "hub_inv h \<Longrightarrow> (map_of (rooms h) name \<noteq> None) = (0 < length (members h name))"
  unfolding hub_inv_lookup
  by (auto simp: members_def simp del: map_of_eq_Some_iff split: option.splits)


lemma members_after_add:
  assumes "addClientToRoom h c tj tu \<mu> = Some (h', \<mu>')"
  shows "map_of (rooms h') (room (\<mu> c)) \<noteq> None"
    and "members h' (room (\<mu> c)) = List.insert c (members h (room (\<mu> c)))"
    and "k \<noteq> room (\<mu> c) \<Longrightarrow> map_of (rooms h') k = map_of (rooms h) k"
  unfolding addClientToRoom_rooms(2) [OF assms] members_def AList.update_conv'
  by (simp_all split: option.splits)

lemma members_after_remove:
  assumes "wf_hub h"
  shows "members (fst (removeClientFromRoom h c tv tu \<mu>)) (room (\<mu> c))
           = removeAll c (members h (room (\<mu> c)))"
    and "(map_of (rooms (fst (removeClientFromRoom h c tv tu \<mu>))) (room (\<mu> c)) \<noteq> None)
           = (removeAll c (members h (room (\<mu> c))) \<noteq> [])"
    and "k \<noteq> room (\<mu> c) \<Longrightarrow>
           map_of (rooms (fst (removeClientFromRoom h c tv tu \<mu>))) k = map_of (rooms h) k"
  unfolding removeClientFromRoom_rooms [OF assms] members_def
  by (simp_all add: AList.update_conv' AList.delete_conv' split: option.splits)

lemma run_example:
  "map_option fst (runAll [Register 1 t0 t0, Register 3 t0 t0, Register 2 t0 t0, Unregister 1 t0 t0, Unregister 2 t0 t0] (NewHub, lobbyHeap))
     = Some \<lparr>rooms = [(''r2'', \<lparr>Name = ''r2'', Clients = [3]\<rparr>)], history = []\<rparr>"
  by (simp add: NewHub_def lobbyHeap_def serveWsClient_def addClientToRoom_def getOrCreateRoom_def
      setRoom_def removeClientFromRoom_def broadcastToRoom_def sendUserListToRoom_def deliver_def
      try_send_def Let_def joinMessage_def leaveMessage_def)


subsection \<open>A room is listed exactly while it has members\<close>

text \<open>
  Claim C5. Start from the new hub and let the control loop take any finite sequence
  of requests (registrations and unregistrations; broadcasts change no room). In the
  state after the last of them, so after every prefix of a longer run, a room name is
  in the directory if and only if its member count is greater than zero, and no stored
  room is empty. A completed registration leaves the session's room in the directory
  with the session added to its members; an unregistration in a well-formed hub
  removes the session from its room's members and the room is still in the directory
  afterwards exactly when members remain. Every other room is untouched by both.
\<close>

theorem room_listed_iff_it_has_members:
  "(runAll qs (NewHub, \<mu>i) = Some (h, \<mu>) \<longrightarrow>
      ((map_of (rooms h) name \<noteq> None) = (0 < length (members h name))) \<and> rooms_nonempty h) \<and>
   (addClientToRoom ha c tj tu \<mu>a = Some (hb, \<mu>b) \<longrightarrow>
      map_of (rooms hb) (room (\<mu>a c)) \<noteq> None \<and>
      members hb (room (\<mu>a c)) = List.insert c (members ha (room (\<mu>a c))) \<and>
      (k \<noteq> room (\<mu>a c) \<longrightarrow> map_of (rooms hb) k = map_of (rooms ha) k)) \<and>
   (wf_hub ha \<longrightarrow>
      members (fst (removeClientFromRoom ha c tv tu \<mu>a)) (room (\<mu>a c))
        = removeAll c (members ha (room (\<mu>a c))) \<and>
      (map_of (rooms (fst (removeClientFromRoom ha c tv tu \<mu>a))) (room (\<mu>a c)) \<noteq> None)
        = (removeAll c (members ha (room (\<mu>a c))) \<noteq> []) \<and>
      (k \<noteq> room (\<mu>a c) \<longrightarrow>
         map_of (rooms (fst (removeClientFromRoom ha c tv tu \<mu>a))) k = map_of (rooms ha) k))"
proof (intro conjI impI)
  assume run: "runAll qs (NewHub, \<mu>i) = Some (h, \<mu>)"
  have "hub_inv (fst (NewHub, \<mu>i))" by (simp add: hub_inv_NewHub)
  from hub_inv_runAll [OF this run] have inv: "hub_inv h" by simp
  then show "(map_of (rooms h) name \<noteq> None) = (0 < length (members h name))"
    by (rule present_iff_members)
  from inv show "rooms_nonempty h" by (simp add: hub_inv_def)
next
  assume add: "addClientToRoom ha c tj tu \<mu>a = Some (hb, \<mu>b)"
  show "map_of (rooms hb) (room (\<mu>a c)) \<noteq> None"
    using add by (rule members_after_add(1))
  show "members hb (room (\<mu>a c)) = List.insert c (members ha (room (\<mu>a c)))"
    using add by (rule members_after_add(2))
  show "map_of (rooms hb) k = map_of (rooms ha) k" if "k \<noteq> room (\<mu>a c)"
    using add that by (rule members_after_add(3))
next
  assume wf: "wf_hub ha"
  show "members (fst (removeClientFromRoom ha c tv tu \<mu>a)) (room (\<mu>a c))
        = removeAll c (members ha (room (\<mu>a c)))"
    using wf by (rule members_after_remove(1))
  show "(map_of (rooms (fst (removeClientFromRoom ha c tv tu \<mu>a))) (room (\<mu>a c)) \<noteq> None)
        = (removeAll c (members ha (room (\<mu>a c))) \<noteq> [])"
    using wf by (rule members_after_remove(2))
  show "map_of (rooms (fst (removeClientFromRoom ha c tv tu \<mu>a))) k = map_of (rooms ha) k"
    if "k \<noteq> room (\<mu>a c)"
    using wf that by (rule members_after_remove(3))
qed

theorem room_listed_iff_it_has_members_witness:
  "map_option fst (runAll [Register 1 t0 t0, Register 3 t0 t0, Register 2 t0 t0,
                           Unregister 1 t0 t0, Unregister 2 t0 t0] (NewHub, lobbyHeap))
     = Some \<lparr>rooms = [(''r2'', \<lparr>Name = ''r2'', Clients = [3]\<rparr>)], history = []\<rparr> \<and>
   0 < length (members \<lparr>rooms = [(''r2'', \<lparr>Name = ''r2'', Clients = [3]\<rparr>)], history = []\<rparr> ''r2'') \<and>
   \<not> 0 < length (members \<lparr>rooms = [(''r2'', \<lparr>Name = ''r2'', Clients = [3]\<rparr>)], history = []\<rparr> ''lobby'') \<and>
   wf_hub lobbyHub \<and>
   map_option (\<lambda>s. members (fst s) ''r2'') (addClientToRoom lobbyHub 4 t0 t0 lobbyHeap) = Some [4, 3] \<and>
   members (fst (removeClientFromRoom lobbyHub 1 t0 t0 lobbyHeap)) ''lobby'' = [2] \<and>
   map_of (rooms (fst (removeClientFromRoom lobbyHub 3 t0 t0 lobbyHeap))) ''r2'' = None"
proof -
  let ?qs = "[Register 1 t0 t0, Register 3 t0 t0, Register 2 t0 t0, Unregister 1 t0 t0, Unregister 2 t0 t0]"
  let ?H = "\<lparr>rooms = [(''r2'', \<lparr>Name = ''r2'', Clients = [3]\<rparr>)], history = []\<rparr>"
  note ex = run_example
  then obtain \<mu> where run: "runAll ?qs (NewHub, lobbyHeap) = Some (?H, \<mu>)"
    by (cases "runAll ?qs (NewHub, lobbyHeap)") auto
  have r2: "map_of (rooms ?H) ''r2'' \<noteq> None" and lobby: "map_of (rooms ?H) ''lobby'' = None"
    by simp_all
  note main = room_listed_iff_it_has_members
  from main [of ?qs lobbyHeap ?H \<mu> "''r2''"] run r2
  have a: "0 < length (members ?H ''r2'')" by blast
  from main [of ?qs lobbyHeap ?H \<mu> "''lobby''"] run lobby
  have b: "\<not> 0 < length (members ?H ''lobby'')" by blast
  obtain h2 \<mu>2 where add: "addClientToRoom lobbyHub 4 t0 t0 lobbyHeap = Some (h2, \<mu>2)"
    by (cases "addClientToRoom lobbyHub 4 t0 t0 lobbyHeap")
      (auto simp: addClientToRoom_def getOrCreateRoom_def setRoom_def lobbyHub_def lobbyHeap_def
        serveWsClient_def Let_def)
  have rooms_lobbyHub: "rooms lobbyHub = [(''lobby'', \<lparr>Name = ''lobby'', Clients = [1, 2]\<rparr>),
                         (''r2'', \<lparr>Name = ''r2'', Clients = [3]\<rparr>)]"
    by (simp add: lobbyHub_def)
  have rm4: "room (lobbyHeap 4) = ''r2''" and rm1: "room (lobbyHeap (Suc 0)) = ''lobby''"
    and rm3: "room (lobbyHeap 3) = ''r2''"
    by (simp_all add: lobbyHeap_def serveWsClient_def)
  from main [where ha = lobbyHub and c = 4 and tj = t0 and tu = t0 and \<mu>a = lobbyHeap
      and hb = h2 and \<mu>b = \<mu>2] add
  have "members h2 (room (lobbyHeap 4)) = List.insert 4 (members lobbyHub (room (lobbyHeap 4)))"
    by blast
  then have "members h2 ''r2'' = [4, 3]"
    by (simp add: rm4 members_def [of lobbyHub] rooms_lobbyHub)
  then have c: "map_option (\<lambda>s. members (fst s) ''r2'') (addClientToRoom lobbyHub 4 t0 t0 lobbyHeap) = Some [4, 3]"
    by (simp add: add)
  from main [where ha = lobbyHub and c = 1 and tv = t0 and tu = t0 and \<mu>a = lobbyHeap] wf_lobbyHub
  have "members (fst (removeClientFromRoom lobbyHub 1 t0 t0 lobbyHeap)) (room (lobbyHeap 1))
          = removeAll 1 (members lobbyHub (room (lobbyHeap 1)))"
    by blast
  then have d: "members (fst (removeClientFromRoom lobbyHub 1 t0 t0 lobbyHeap)) ''lobby'' = [2]"
    by (simp add: rm1 members_def [of lobbyHub] rooms_lobbyHub)
  from main [where ha = lobbyHub and c = 3 and tv = t0 and tu = t0 and \<mu>a = lobbyHeap] wf_lobbyHub
  have "(map_of (rooms (fst (removeClientFromRoom lobbyHub 3 t0 t0 lobbyHeap))) (room (lobbyHeap 3)) \<noteq> None)
          = (removeAll 3 (members lobbyHub (room (lobbyHeap 3))) \<noteq> [])"
    by blast
  then have e: "map_of (rooms (fst (removeClientFromRoom lobbyHub 3 t0 t0 lobbyHeap))) ''r2'' = None"
    by (simp add: rm3 members_def [of lobbyHub] rooms_lobbyHub)
  from ex a b wf_lobbyHub c d e show ?thesis by blast
qed

subsection \<open>Facts about registration\<close>







lemma sendUserListToRoom_members:
  "sendUserListToRoom h k now \<mu> =
     broadcastToRoom h k (userListMessage k (map (\<lambda>c. username (\<mu> c)) (members h k)) now) \<mu>"
  by (simp add: sendUserListToRoom_def broadcastToRoom_def members_def Let_def split: option.splits)






subsection \<open>Registration: join, announce, replay, list\<close>



subsection \<open>Facts about offers and audiences\<close>

lemma username_deliver [simp]: "username (deliver c m \<mu> x) = username (\<mu> x)"
  by (simp add: deliver_def)

lemma offer_Nil [simp]: "offer f [] \<mu> = \<mu>"
  by (simp add: offer_def)

lemma offer_Cons [simp]: "offer f ((k, c) # ps) \<mu> = offer f ps (deliver c (f k) \<mu>)"
  by (simp add: offer_def)

lemma offer_append: "offer f (ps @ qs) \<mu> = offer f qs (offer f ps \<mu>)"
  by (simp add: offer_def)

lemma offer_seats_of_room: "offer f (map (Pair k) cs) \<mu> = fold (\<lambda>c. deliver c (f k)) cs \<mu>"
  by (induction cs arbitrary: \<mu>) simp_all

lemma username_offer [simp]: "username (offer f ps \<mu> x) = username (\<mu> x)"
  by (induction ps arbitrary: \<mu>) auto

lemma offer_notin: "x \<notin> snd ` set ps \<Longrightarrow> offer f ps \<mu> x = \<mu> x"
  by (induction ps arbitrary: \<mu>) (auto simp: deliver_other)

lemma offer_in:
  "distinct (map snd ps) \<Longrightarrow> (k, c) \<in> set ps \<Longrightarrow>
     offer f ps \<mu> c = (\<mu> c)\<lparr>send := try_send (send (\<mu> c)) (f k)\<rparr>"
proof (induction ps arbitrary: \<mu>)
  case Nil
  then show ?case by simp
next
  case (Cons p ps)
  obtain k' c' where p: "p = (k', c')" by (cases p)
  show ?case
  proof (cases "(k, c) = p")
    case True
    with Cons.prems p have "c \<notin> snd ` set ps" by auto
    then have "offer f ps (deliver c (f k) \<mu>) c = deliver c (f k) \<mu> c"
      by (rule offer_notin)
    with True p show ?thesis by (simp add: deliver_def)
  next
    case False
    with Cons.prems p have in_rest: "(k, c) \<in> set ps" and d: "distinct (map snd ps)" by auto
    with Cons.prems p have "c \<noteq> c'" by force
    with Cons.IH [OF d in_rest, of "deliver c' (f k') \<mu>"] p show ?thesis
      by (simp add: deliver_other)
  qed
qed

lemma seatsOf_Cons: "seatsOf ((k, r) # al) = map (Pair k) (Clients r) @ seatsOf al"
  by (simp add: seatsOf_def)

lemma seatsOf_Nil [simp]: "seatsOf [] = []"
  by (simp add: seatsOf_def)

lemma in_seatsOf: "(k, c) \<in> set (seatsOf al) \<longleftrightarrow> (\<exists>r. (k, r) \<in> set al \<and> c \<in> set (Clients r))"
  by (induction al) (auto simp: seatsOf_Cons)

lemma in_seats:
  "wf_hub h \<Longrightarrow> (k, c) \<in> set (seats h) \<longleftrightarrow> c \<in> set (members h k)"
  by (auto simp: seats_def in_seatsOf members_def wf_hub_def split: option.splits)

text \<open>The three loops of \<open>routeNotification\<close> as offers.\<close>

lemma broadcast_all_as_offer:
  assumes "distinct (map fst (rooms h))" "set al \<subseteq> set (rooms h)"
  shows "fold (\<lambda>name. broadcastToRoom h name (f name)) (map fst al) \<mu> = offer f (seatsOf al) \<mu>"
  using assms(2)
proof (induction al arbitrary: \<mu>)
  case Nil
  then show ?case by simp
next
  case (Cons p al)
  obtain k r where p: "p = (k, r)" by (cases p)
  with Cons.prems have "(k, r) \<in> set (rooms h)" by simp
  with assms(1) have "map_of (rooms h) k = Some r" by simp
  then have "broadcastToRoom h k (f k) \<mu> = offer f (map (Pair k) (Clients r)) \<mu>"
    by (simp add: broadcastToRoom_def offer_seats_of_room)
  moreover from Cons.prems have "set al \<subseteq> set (rooms h)" by simp
  ultimately show ?case
    using Cons.IH by (simp add: p seatsOf_Cons offer_append)
qed

lemma seats_of_room:
  "distinct (map fst al) \<Longrightarrow>
     filter (\<lambda>(k, c). k = X) (seatsOf al)
       = (case map_of al X of None \<Rightarrow> [] | Some r \<Rightarrow> map (Pair X) (Clients r))"
proof (induction al)
  case Nil
  then show ?case by simp
next
  case (Cons p al)
  obtain k r where p: "p = (k, r)" by (cases p)
  show ?case
  proof (cases "k = X")
    case True
    with Cons.prems p have "X \<notin> fst ` set al" by auto
    then have "filter (\<lambda>(k, c). k = X) (seatsOf al) = []"
      by (force simp: filter_empty_conv in_seatsOf)
    with True p show ?thesis
      by (simp add: seatsOf_Cons filter_map comp_def)
  next
    case False
    with Cons p show ?thesis
      by (simp add: seatsOf_Cons filter_map comp_def)
  qed
qed

lemma broadcast_room_as_offer:
  "wf_hub h \<Longrightarrow> broadcastToRoom h X (f X) \<mu> = offer f (filter (\<lambda>(k, c). k = X) (seats h)) \<mu>"
  by (simp add: seats_def seats_of_room wf_hub_def broadcastToRoom_def offer_seats_of_room
      split: option.splits)

lemma deliver_blocking_room: "\<not> full \<mu> c \<Longrightarrow> deliver_blocking c m \<mu> = Some (deliver c m \<mu>)"
  by (simp add: deliver_blocking_def send_blocking_def deliver_def try_send_def full_def)

lemma full_deliver_other: "x \<noteq> c \<Longrightarrow> full (deliver c m \<mu>) x = full \<mu> x"
  by (simp add: full_def deliver_other)

lemma notifyClients_as_fold:
  assumes "distinct cs" "\<forall>c \<in> set cs. username (\<mu> c) = U \<longrightarrow> \<not> full \<mu> c"
  shows "notifyClients U msg cs \<mu>
           = Some (fold (\<lambda>c. deliver c msg) (filter (\<lambda>c. username (\<mu> c) = U) cs) \<mu>)"
  using assms
proof (induction cs arbitrary: \<mu>)
  case Nil
  then show ?case by simp
next
  case (Cons c cs)
  show ?case
  proof (cases "username (\<mu> c) = U")
    case False
    with Cons show ?thesis by simp
  next
    case True
    let ?\<mu>1 = "deliver c msg \<mu>"
    from True Cons.prems have d: "deliver_blocking c msg \<mu> = Some ?\<mu>1"
      by (simp add: deliver_blocking_room)
    have nf: "\<forall>x \<in> set cs. username (?\<mu>1 x) = U \<longrightarrow> \<not> full ?\<mu>1 x"
    proof (intro ballI impI)
      fix x assume x: "x \<in> set cs" and u: "username (?\<mu>1 x) = U"
      from x Cons.prems(1) have "x \<noteq> c" by auto
      then have "full ?\<mu>1 x = full \<mu> x" by (rule full_deliver_other)
      moreover from x u Cons.prems(2) have "\<not> full \<mu> x" by simp
      ultimately show "\<not> full ?\<mu>1 x" by simp
    qed
    from Cons.prems have dcs: "distinct cs" by simp
    have "notifyClients U msg cs ?\<mu>1
        = Some (fold (\<lambda>c. deliver c msg) (filter (\<lambda>c. username (?\<mu>1 c) = U) cs) ?\<mu>1)"
      using dcs nf by (rule Cons.IH)
    with True d show ?thesis by simp
  qed
qed

lemma notifyRooms_as_offer:
  assumes "\<forall>(k, r) \<in> set al. Name r = k"
    and "distinct (map snd (seatsOf al))"
    and "\<forall>(k, c) \<in> set (seatsOf al). username (\<mu> c) = U \<longrightarrow> \<not> full \<mu> c"
  shows "notifyRooms U n (map snd al) \<mu>
           = Some (offer (\<lambda>k. adminMessage k n) (filter (\<lambda>(k, c). username (\<mu> c) = U) (seatsOf al)) \<mu>)"
  using assms
proof (induction al arbitrary: \<mu>)
  case Nil
  then show ?case by simp
next
  case (Cons p al)
  obtain k r where p: "p = (k, r)" by (cases p)
  let ?f = "\<lambda>k. adminMessage k n"
  let ?here = "filter (\<lambda>c. username (\<mu> c) = U) (Clients r)"
  let ?\<mu>1 = "fold (\<lambda>c. deliver c (?f k)) ?here \<mu>"
  from Cons.prems(1) p have nm: "Name r = k" by simp
  from Cons.prems(2) p have dr: "distinct (Clients r)"
    and dal: "distinct (map snd (seatsOf al))"
    and disj: "set (Clients r) \<inter> snd ` set (seatsOf al) = {}"
    by (auto simp: seatsOf_Cons distinct_map comp_def inj_on_def)
  have "\<forall>c \<in> set (Clients r). username (\<mu> c) = U \<longrightarrow> \<not> full \<mu> c"
    using Cons.prems(3) p by (auto simp: seatsOf_Cons)
  with dr have here: "notifyClients U (?f k) (Clients r) \<mu> = Some ?\<mu>1"
    by (rule notifyClients_as_fold)
  have untouched: "?\<mu>1 c = \<mu> c" if "c \<in> snd ` set (seatsOf al)" for c
  proof -
    from that disj have "c \<notin> set ?here" by auto
    then show ?thesis by (rule fold_deliver_notin)
  qed
  have names: "username (?\<mu>1 c) = username (\<mu> c)" for c
    using username_offer [of ?f "map (Pair k) ?here" \<mu> c] by (simp add: offer_seats_of_room)
  have nal: "\<forall>(k, r) \<in> set al. Name r = k" using Cons.prems(1) by simp
  have nfal1: "\<not> full ?\<mu>1 c" if in_al: "(k', c) \<in> set (seatsOf al)" and u: "username (?\<mu>1 c) = U" for k' c
  proof -
    from in_al have "c \<in> snd ` set (seatsOf al)" by force
    then have same: "?\<mu>1 c = \<mu> c" by (rule untouched)
    with u have "username (\<mu> c) = U" by simp
    with Cons.prems(3) in_al p have "\<not> full \<mu> c" by (auto simp: seatsOf_Cons)
    with same show ?thesis by (simp add: full_def)
  qed
  then have nfal: "\<forall>(k', c) \<in> set (seatsOf al). username (?\<mu>1 c) = U \<longrightarrow> \<not> full ?\<mu>1 c"
    by auto
  have rest: "notifyRooms U n (map snd al) ?\<mu>1
      = Some (offer ?f (filter (\<lambda>(k, c). username (?\<mu>1 c) = U) (seatsOf al)) ?\<mu>1)"
    using nal dal nfal by (rule Cons.IH)
  have split: "filter (\<lambda>(k, c). username (\<mu> c) = U) (seatsOf (p # al))
                = map (Pair k) ?here @ filter (\<lambda>(k, c). username (\<mu> c) = U) (seatsOf al)"
    by (simp add: p seatsOf_Cons filter_map comp_def)
  show ?case
    unfolding split offer_append offer_seats_of_room
    using here rest by (simp add: p nm names)
qed

lemma classify_cases:
  "classify ''all'' = Everyone"
  "classify (''room:'' @ X) = InRoom X"
  "classify (''user:'' @ U) = Named U"
  "t \<noteq> ''all'' \<Longrightarrow> \<not> HasPrefix t ''room:'' \<Longrightarrow> \<not> HasPrefix t ''user:'' \<Longrightarrow> classify t = Nobody"
  by (simp_all add: classify_def HasPrefix_def TrimPrefix_def)

lemma sessions_seats: "distinct (sessions h) \<Longrightarrow> distinct (map snd (seats h))"
  by (simp add: sessions_def)

lemma distinct_map_snd_filter: "distinct (map snd ps) \<Longrightarrow> distinct (map snd (filter P ps))"
  by (induction ps) auto

lemma routeNotification_as_offer:
  assumes wf: "wf_hub h"
    and one: "\<And>U. classify (Target n) = Named U \<Longrightarrow> distinct (sessions h)"
    and room: "\<And>U. classify (Target n) = Named U \<Longrightarrow>
                 \<forall>(k, c) \<in> set (resolveTargets h \<mu> (Target n)). \<not> full \<mu> c"
  shows "routeNotification h uuid n \<mu>
           = Some (addNotification h uuid n,
                   offer (\<lambda>k. adminMessage k n) (resolveTargets h \<mu> (Target n)) \<mu>)"
proof (cases "classify (Target n)")
  case Everyone
  then have t: "Target n = ''all''" by (simp add: classify_def split: if_splits)
  from wf have "distinct (map fst (rooms (addNotification h uuid n)))"
    by (simp add: rooms_addNotification wf_hub_def)
  from broadcast_all_as_offer [OF this subset_refl, of "\<lambda>k. adminMessage k n" \<mu>]
  show ?thesis
    by (simp add: routeNotification_def Let_def t resolveTargets_def classify_def
        rooms_addNotification seats_def)
next
  case (InRoom X)
  then have t: "Target n \<noteq> ''all''" "HasPrefix (Target n) ''room:''" "TrimPrefix (Target n) ''room:'' = X"
    by (simp_all add: classify_def split: if_splits)
  have wf1: "wf_hub (addNotification h uuid n)"
    using wf by (simp add: wf_hub_def rooms_addNotification)
  have "seats (addNotification h uuid n) = seats h"
    by (simp add: seats_def rooms_addNotification)
  with broadcast_room_as_offer [OF wf1, of X "\<lambda>k. adminMessage k n" \<mu>] InRoom t
  show ?thesis
    by (simp add: routeNotification_def Let_def resolveTargets_def)
next
  case (Named U)
  then have t: "Target n \<noteq> ''all''" "\<not> HasPrefix (Target n) ''room:''"
    "HasPrefix (Target n) ''user:''" "TrimPrefix (Target n) ''user:'' = U"
    by (simp_all add: classify_def split: if_splits)
  from room [OF Named] Named
  have nf: "\<forall>(k, c) \<in> set (seatsOf (rooms h)). username (\<mu> c) = U \<longrightarrow> \<not> full \<mu> c"
    by (auto simp: resolveTargets_def seats_def)
  from wf have nm: "\<forall>(k, r) \<in> set (rooms h). Name r = k" by (auto simp: wf_hub_def)
  from one [OF Named] have d: "distinct (map snd (seatsOf (rooms h)))"
    by (simp add: sessions_def seats_def)
  from notifyRooms_as_offer [OF nm d nf, of n] Named t
  show ?thesis
    by (simp add: routeNotification_def Let_def resolveTargets_def rooms_addNotification seats_def)
next
  case Nobody
  then have "Target n \<noteq> ''all''" "\<not> HasPrefix (Target n) ''room:''" "\<not> HasPrefix (Target n) ''user:''"
    by (simp_all add: classify_def split: if_splits)
  with Nobody show ?thesis
    by (simp add: routeNotification_def Let_def resolveTargets_def)
qed

lemma wf_addNotification: "wf_hub (addNotification h uuid n) = wf_hub h"
  by (simp add: wf_hub_def rooms_addNotification)

lemma members_addNotification: "members (addNotification h uuid n) X = members h X"
  by (simp add: members_def rooms_addNotification)


lemma try_send_not_full:
  "\<not> full \<mu> c \<Longrightarrow>
     (\<mu> c)\<lparr>send := try_send (send (\<mu> c)) m\<rparr> = (\<mu> c)\<lparr>send := (send (\<mu> c))\<lparr>buf := pending \<mu> c @ [m]\<rparr>\<rparr>"
  by (simp add: full_def try_send_def pending_def)

lemma route_offer_effect:
  assumes res: "routeNotification h uuid n \<mu>
                  = Some (addNotification h uuid n, offer (\<lambda>k. adminMessage k n) ps \<mu>)"
    and d: "distinct (map snd ps)"
    and nf: "\<forall>(k, c) \<in> set ps. \<not> full \<mu> c"
  shows "\<exists>\<mu>'. routeNotification h uuid n \<mu> = Some (addNotification h uuid n, \<mu>') \<and>
           (\<forall>(k, c) \<in> set ps.
              \<mu>' c = (\<mu> c)\<lparr>send := (send (\<mu> c))\<lparr>buf := pending \<mu> c @ [adminMessage k n]\<rparr>\<rparr>) \<and>
           (\<forall>c. c \<notin> snd ` set ps \<longrightarrow> \<mu>' c = \<mu> c)"
proof -
  let ?\<mu>' = "offer (\<lambda>k. adminMessage k n) ps \<mu>"
  have "?\<mu>' c = (\<mu> c)\<lparr>send := (send (\<mu> c))\<lparr>buf := pending \<mu> c @ [adminMessage k n]\<rparr>\<rparr>"
    if "(k, c) \<in> set ps" for k c
  proof -
    from nf that have "\<not> full \<mu> c" by auto
    then show ?thesis
      using offer_in [OF d that, of "\<lambda>k. adminMessage k n" \<mu>] by (simp add: try_send_not_full)
  qed
  moreover have "?\<mu>' c = \<mu> c" if "c \<notin> snd ` set ps" for c
    using that by (rule offer_notin)
  ultimately show ?thesis using res by blast
qed

subsection \<open>Who receives a notification for a room or for a user\<close>


lemma lobby_facts:
  "members lobbyHub ''lobby'' = [1, 2]" "members lobbyHub ''r2'' = [3]"
  "seats lobbyHub = [(''lobby'', 1), (''lobby'', 2), (''r2'', 3)]" "sessions lobbyHub = [1, 2, 3]"
  "username (lobbyHeap 1) = ''A''" "username (lobbyHeap (Suc 0)) = ''A''" "username (lobbyHeap 2) = ''B''" "username (lobbyHeap 3) = ''C''"
  "\<not> full lobbyHeap c" "pending lobbyHeap c = []" "buf (send (lobbyHeap c)) = []"
  by (simp_all add: members_def sessions_def seats_def seatsOf_def lobbyHub_def lobbyHeap_def
      serveWsClient_def full_def pending_def)


subsection \<open>Target resolution\<close>

text \<open>
  Claim C4, as the code has it. A target is classified by the switch of
  \<open>routeNotification\<close>: the literal \<open>all\<close> selects every seat of every room; a
  target starting with \<open>room:\<close> selects the seats of the one room named by the rest
  (its members, in a well-formed hub); a target starting with \<open>user:\<close> selects, over
  all rooms, the seats of the sessions whose username equals the rest exactly; every
  other target selects no seat at all. In a well-formed hub where every session sits
  in one room only, when no selected session has a full mailbox, the dispatch returns
  with the notification in the history, the system event for its room appended to the
  mailbox of every selected session, and every other session as it was. Both
  conditions on the hub hold in every state the control loop reaches from the new hub.
\<close>

theorem target_resolution_by_prefix:
  "resolveTargets h \<mu> ''all'' = seats h \<and>
   resolveTargets h \<mu> (''room:'' @ X) = filter (\<lambda>(k, c). k = X) (seats h) \<and>
   (wf_hub h \<longrightarrow> resolveTargets h \<mu> (''room:'' @ X) = map (Pair X) (members h X)) \<and>
   resolveTargets h \<mu> (''user:'' @ U) = filter (\<lambda>(k, c). username (\<mu> c) = U) (seats h) \<and>
   (t \<noteq> ''all'' \<and> \<not> HasPrefix t ''room:'' \<and> \<not> HasPrefix t ''user:'' \<longrightarrow> resolveTargets h \<mu> t = []) \<and>
   (wf_hub h \<and> distinct (sessions h) \<and>
    (\<forall>(k, c) \<in> set (resolveTargets h \<mu> (Target n)). \<not> full \<mu> c) \<longrightarrow>
      (\<exists>\<mu>'. routeNotification h uuid n \<mu> = Some (addNotification h uuid n, \<mu>') \<and>
         (\<forall>(k, c) \<in> set (resolveTargets h \<mu> (Target n)).
            \<mu>' c = (\<mu> c)\<lparr>send := (send (\<mu> c))\<lparr>buf := pending \<mu> c @ [adminMessage k n]\<rparr>\<rparr>) \<and>
         (\<forall>c. c \<notin> snd ` set (resolveTargets h \<mu> (Target n)) \<longrightarrow> \<mu>' c = \<mu> c)))"
proof (intro conjI impI)
  show "resolveTargets h \<mu> ''all'' = seats h"
    by (simp add: resolveTargets_def classify_cases(1))
  show r: "resolveTargets h \<mu> (''room:'' @ X) = filter (\<lambda>(k, c). k = X) (seats h)"
    unfolding resolveTargets_def classify_cases(2) by simp
  show "resolveTargets h \<mu> (''user:'' @ U) = filter (\<lambda>(k, c). username (\<mu> c) = U) (seats h)"
    unfolding resolveTargets_def classify_cases(3) by simp
  show "resolveTargets h \<mu> (''room:'' @ X) = map (Pair X) (members h X)" if "wf_hub h"
    unfolding r using that
    by (simp add: seats_def seats_of_room wf_hub_def members_def split: option.splits)
  show "resolveTargets h \<mu> t = []"
    if "t \<noteq> ''all'' \<and> \<not> HasPrefix t ''room:'' \<and> \<not> HasPrefix t ''user:''"
    using that by (simp add: resolveTargets_def classify_cases(4))
next
  assume a: "wf_hub h \<and> distinct (sessions h) \<and>
    (\<forall>(k, c) \<in> set (resolveTargets h \<mu> (Target n)). \<not> full \<mu> c)"
  then have wf: "wf_hub h" and one: "distinct (sessions h)"
    and nf: "\<forall>(k, c) \<in> set (resolveTargets h \<mu> (Target n)). \<not> full \<mu> c"
    by simp_all
  have res: "routeNotification h uuid n \<mu>
               = Some (addNotification h uuid n,
                       offer (\<lambda>k. adminMessage k n) (resolveTargets h \<mu> (Target n)) \<mu>)"
    using wf one nf by (rule routeNotification_as_offer)
  have "distinct (map snd (seats h))" using one by (simp add: sessions_def)
  then have d: "distinct (map snd (resolveTargets h \<mu> (Target n)))"
    by (simp add: resolveTargets_def distinct_map_snd_filter split: audience.splits)
  from res d nf
  show "\<exists>\<mu>'. routeNotification h uuid n \<mu> = Some (addNotification h uuid n, \<mu>') \<and>
         (\<forall>(k, c) \<in> set (resolveTargets h \<mu> (Target n)).
            \<mu>' c = (\<mu> c)\<lparr>send := (send (\<mu> c))\<lparr>buf := pending \<mu> c @ [adminMessage k n]\<rparr>\<rparr>) \<and>
         (\<forall>c. c \<notin> snd ` set (resolveTargets h \<mu> (Target n)) \<longrightarrow> \<mu>' c = \<mu> c)"
    by (rule route_offer_effect)
qed

theorem target_resolution_by_prefix_counterexample:
  "Target noticeEveryone = ''everyone'' \<and>
   members lobbyHub ''lobby'' = [1, 2] \<and> members lobbyHub ''r2'' = [3] \<and>
   \<not> full lobbyHeap 1 \<and> \<not> full lobbyHeap 2 \<and> \<not> full lobbyHeap 3 \<and>
   routeNotification lobbyHub ''u'' noticeEveryone lobbyHeap
     = Some (lobbyHub\<lparr>history := [noticeEveryone]\<rparr>, lobbyHeap) \<and>
   routeNotification lobbyHub ''u'' noticeAll lobbyHeap
     = Some (lobbyHub\<lparr>history := [noticeAll]\<rparr>,
             lobbyHeap
               (1 := \<lparr>send = \<lparr>buf = [adminMessage ''lobby'' noticeAll], cap = 256\<rparr>,
                      username = ''A'', room = ''lobby''\<rparr>,
                2 := \<lparr>send = \<lparr>buf = [adminMessage ''lobby'' noticeAll], cap = 256\<rparr>,
                      username = ''B'', room = ''lobby''\<rparr>,
                3 := \<lparr>send = \<lparr>buf = [adminMessage ''r2'' noticeAll], cap = 256\<rparr>,
                      username = ''C'', room = ''r2''\<rparr>))"
proof -
  have a: "Target noticeEveryone = ''everyone''" by (simp add: noticeEveryone_def)
  have b: "routeNotification lobbyHub ''u'' noticeEveryone lobbyHeap
     = Some (lobbyHub\<lparr>history := [noticeEveryone]\<rparr>, lobbyHeap)"
    by (simp add: routeNotification_def addNotification_def Let_def a HasPrefix_def)
      (simp add: lobbyHub_def noticeEveryone_def)
  have t: "Target noticeAll = ''all''" "ID noticeAll \<noteq> []" by (simp_all add: noticeAll_def)
  have h: "addNotification lobbyHub ''u'' noticeAll = lobbyHub\<lparr>history := [noticeAll]\<rparr>"
    using t(2) by (simp add: addNotification_def Let_def lobbyHub_def)
  have "fold (\<lambda>name. broadcastToRoom (lobbyHub\<lparr>history := [noticeAll]\<rparr>) name (adminMessage name noticeAll))
           (map fst (rooms (lobbyHub\<lparr>history := [noticeAll]\<rparr>))) lobbyHeap
      = lobbyHeap
               (1 := \<lparr>send = \<lparr>buf = [adminMessage ''lobby'' noticeAll], cap = 256\<rparr>,
                      username = ''A'', room = ''lobby''\<rparr>,
                2 := \<lparr>send = \<lparr>buf = [adminMessage ''lobby'' noticeAll], cap = 256\<rparr>,
                      username = ''B'', room = ''lobby''\<rparr>,
                3 := \<lparr>send = \<lparr>buf = [adminMessage ''r2'' noticeAll], cap = 256\<rparr>,
                      username = ''C'', room = ''r2''\<rparr>)"
    by (auto simp: lobbyHub_def broadcastToRoom_def deliver_def try_send_def lobbyHeap_def
        serveWsClient_def fun_eq_iff)
  then have c: "routeNotification lobbyHub ''u'' noticeAll lobbyHeap
     = Some (lobbyHub\<lparr>history := [noticeAll]\<rparr>,
             lobbyHeap
               (1 := \<lparr>send = \<lparr>buf = [adminMessage ''lobby'' noticeAll], cap = 256\<rparr>,
                      username = ''A'', room = ''lobby''\<rparr>,
                2 := \<lparr>send = \<lparr>buf = [adminMessage ''lobby'' noticeAll], cap = 256\<rparr>,
                      username = ''B'', room = ''lobby''\<rparr>,
                3 := \<lparr>send = \<lparr>buf = [adminMessage ''r2'' noticeAll], cap = 256\<rparr>,
                      username = ''C'', room = ''r2''\<rparr>))"
    by (simp add: routeNotification_def Let_def t(1) h)
  have m: "members lobbyHub ''lobby'' = [1, 2]" "members lobbyHub ''r2'' = [3]"
    by (rule lobby_facts)+
  have nfs: "\<not> full lobbyHeap 1" "\<not> full lobbyHeap 2" "\<not> full lobbyHeap 3"
    by (rule lobby_facts)+
  from a m nfs b c show ?thesis by (intro conjI)
qed

theorem target_resolution_by_prefix_witness:
  "wf_hub lobbyHub \<and> distinct (sessions lobbyHub) \<and>
   ''everyone'' \<noteq> ''all'' \<and> \<not> HasPrefix ''everyone'' ''room:'' \<and> \<not> HasPrefix ''everyone'' ''user:'' \<and>
   resolveTargets lobbyHub lobbyHeap ''everyone'' = [] \<and>
   resolveTargets lobbyHub lobbyHeap (''room:'' @ ''lobby'') = [(''lobby'', 1), (''lobby'', 2)] \<and>
   resolveTargets lobbyHub lobbyHeap (Target noticeUserC) = [(''r2'', 3)] \<and>
   \<not> full lobbyHeap 3 \<and>
   map_option (\<lambda>s. map (pending (snd s)) [1, 2, 3]) (routeNotification lobbyHub ''u'' noticeUserC lobbyHeap)
     = Some [[], [], [adminMessage ''r2'' noticeUserC]]"
proof -
  note main = target_resolution_by_prefix
  have one: "distinct (sessions lobbyHub)" by (simp add: lobby_facts)
  have e: "''everyone'' \<noteq> ''all''" "\<not> HasPrefix ''everyone'' ''room:''" "\<not> HasPrefix ''everyone'' ''user:''"
    by (simp_all add: HasPrefix_def)
  from main [of lobbyHub lobbyHeap _ _ "''everyone''", THEN conjunct2, THEN conjunct2, THEN conjunct2,
      THEN conjunct2, THEN conjunct1, THEN mp, OF conjI [OF e(1) conjI [OF e(2) e(3)]]]
  have r0: "resolveTargets lobbyHub lobbyHeap ''everyone'' = []" .
  from main [of lobbyHub lobbyHeap "''lobby''", THEN conjunct2, THEN conjunct2, THEN conjunct1,
      THEN mp, OF wf_lobbyHub]
  have r1: "resolveTargets lobbyHub lobbyHeap (''room:'' @ ''lobby'') = [(''lobby'', 1), (''lobby'', 2)]"
    by (simp add: lobby_facts)
  have tc: "Target noticeUserC = ''user:'' @ ''C''" by (simp add: noticeUserC_def)
  from main [of lobbyHub lobbyHeap _ "''C''", THEN conjunct2, THEN conjunct2, THEN conjunct2,
      THEN conjunct1]
  have r2: "resolveTargets lobbyHub lobbyHeap (Target noticeUserC) = [(''r2'', 3)]"
    unfolding tc by (simp add: lobby_facts)
  have nf: "\<forall>(k, c) \<in> set (resolveTargets lobbyHub lobbyHeap (Target noticeUserC)). \<not> full lobbyHeap c"
    unfolding r2 by (simp add: lobby_facts)
  from main [of lobbyHub lobbyHeap _ _ _ noticeUserC "''u''", THEN conjunct2, THEN conjunct2,
      THEN conjunct2, THEN conjunct2, THEN conjunct2, THEN mp,
      OF conjI [OF wf_lobbyHub conjI [OF one nf]]]
  obtain \<mu>' where r: "routeNotification lobbyHub ''u'' noticeUserC lobbyHeap
                         = Some (addNotification lobbyHub ''u'' noticeUserC, \<mu>')"
    and inn: "\<forall>(k, c) \<in> set (resolveTargets lobbyHub lobbyHeap (Target noticeUserC)).
                \<mu>' c = (lobbyHeap c)\<lparr>send := (send (lobbyHeap c))\<lparr>buf := pending lobbyHeap c @ [adminMessage k noticeUserC]\<rparr>\<rparr>"
    and out: "\<And>c. c \<notin> snd ` set (resolveTargets lobbyHub lobbyHeap (Target noticeUserC)) \<Longrightarrow> \<mu>' c = lobbyHeap c"
    by blast
  have p: "map (pending \<mu>') [1, 2, 3] = [[], [], [adminMessage ''r2'' noticeUserC]]"
    using inn out [of 1] out [of 2] unfolding r2 by (simp add: lobby_facts pending_def [of \<mu>'])
  have q: "map_option (\<lambda>s. map (pending (snd s)) [1, 2, 3]) (routeNotification lobbyHub ''u'' noticeUserC lobbyHeap)
     = Some [[], [], [adminMessage ''r2'' noticeUserC]]"
    unfolding r using p by simp
  have nf3: "\<not> full lobbyHeap 3" by (rule lobby_facts)
  from wf_lobbyHub one e r0 r1 r2 nf3 q show ?thesis by (intro conjI)
qed

subsection \<open>A full mailbox\<close>

lemma deliver_full: "full \<mu> c \<Longrightarrow> deliver x m \<mu> c = \<mu> c"
  by (cases "x = c") (simp_all add: deliver_def full_def try_send_def)

lemma fold_deliver_full: "full \<mu> c \<Longrightarrow> fold (\<lambda>x. deliver x m) cs \<mu> c = \<mu> c"
proof (induction cs arbitrary: \<mu>)
  case Nil
  then show ?case by simp
next
  case (Cons x cs)
  from Cons.prems have same: "deliver x m \<mu> c = \<mu> c" by (rule deliver_full)
  with Cons.prems have "full (deliver x m \<mu>) c" by (simp add: full_def)
  from Cons.IH [OF this] same show ?case by simp
qed

lemma filter_removeAll: "filter P (removeAll c xs) = filter (\<lambda>x. x \<noteq> c \<and> P x) xs"
  by (induction xs) auto

lemma broadcastClients_effect:
  assumes "distinct cs" "\<forall>c \<in> set cs. \<not> closed (Send (\<mu> c))"
  shows "broadcastClients m cs (h, \<mu>) =
           Inr (h\<lparr>clients := filter (\<lambda>x. \<not> (x \<in> set cs \<and> full7 \<mu> x)) (clients h)\<rparr>,
                (\<lambda>x. if x \<in> set cs
                      then (if full7 \<mu> x then (\<mu> x)\<lparr>Send := (Send (\<mu> x))\<lparr>closed := True\<rparr>\<rparr>
                            else (\<mu> x)\<lparr>Send := (Send (\<mu> x))\<lparr>buf7 := buf7 (Send (\<mu> x)) @ [m]\<rparr>\<rparr>)
                      else \<mu> x))"
  using assms
proof (induction cs arbitrary: h \<mu>)
  case Nil
  then show ?case by simp
next
  case (Cons c cs)
  from Cons.prems have open_c: "\<not> closed (Send (\<mu> c))" and notin: "c \<notin> set cs" and d: "distinct cs"
    by simp_all
  show ?case
  proof (cases "full7 \<mu> c")
    case False
    define \<mu>1 where "\<mu>1 = \<mu>(c := (\<mu> c)\<lparr>Send := (Send (\<mu> c))\<lparr>buf7 := buf7 (Send (\<mu> c)) @ [m]\<rparr>\<rparr>)"
    have other: "\<mu>1 x = \<mu> x" if "x \<noteq> c" for x using that by (simp add: \<mu>1_def)
    have samefull: "full7 \<mu>1 x = full7 \<mu> x" if "x \<noteq> c" for x
      using other [OF that] by (simp add: full7_def)
    have at_c: "\<mu>1 c = (\<mu> c)\<lparr>Send := (Send (\<mu> c))\<lparr>buf7 := buf7 (Send (\<mu> c)) @ [m]\<rparr>\<rparr>"
      by (simp add: \<mu>1_def)
    have "\<forall>x \<in> set cs. \<not> closed (Send (\<mu>1 x))"
    proof
      fix x assume x: "x \<in> set cs"
      with notin have "x \<noteq> c" by auto
      then have "\<mu>1 x = \<mu> x" by (rule other)
      with x Cons.prems(2) show "\<not> closed (Send (\<mu>1 x))" by simp
    qed
    from Cons.IH [OF d this, of h]
    have ih: "broadcastClients m cs (h, \<mu>1) =
           Inr (h\<lparr>clients := filter (\<lambda>x. \<not> (x \<in> set cs \<and> full7 \<mu>1 x)) (clients h)\<rparr>,
                (\<lambda>x. if x \<in> set cs
                      then (if full7 \<mu>1 x then (\<mu>1 x)\<lparr>Send := (Send (\<mu>1 x))\<lparr>closed := True\<rparr>\<rparr>
                            else (\<mu>1 x)\<lparr>Send := (Send (\<mu>1 x))\<lparr>buf7 := buf7 (Send (\<mu>1 x)) @ [m]\<rparr>\<rparr>)
                      else \<mu>1 x))" .
    have f: "(x \<in> set cs \<and> full7 \<mu>1 x) = (x \<in> set (c # cs) \<and> full7 \<mu> x)" for x
    proof (cases "x = c")
      case True
      with False notin show ?thesis by simp
    next
      case ne: False
      then have "\<mu>1 x = \<mu> x" by (rule other)
      then have "full7 \<mu>1 x = full7 \<mu> x" by (simp add: full7_def)
      with ne show ?thesis by simp
    qed
    have g: "(\<lambda>x. if x \<in> set cs
                then (if full7 \<mu>1 x then (\<mu>1 x)\<lparr>Send := (Send (\<mu>1 x))\<lparr>closed := True\<rparr>\<rparr>
                      else (\<mu>1 x)\<lparr>Send := (Send (\<mu>1 x))\<lparr>buf7 := buf7 (Send (\<mu>1 x)) @ [m]\<rparr>\<rparr>)
                else \<mu>1 x)
           = (\<lambda>x. if x \<in> set (c # cs)
                then (if full7 \<mu> x then (\<mu> x)\<lparr>Send := (Send (\<mu> x))\<lparr>closed := True\<rparr>\<rparr>
                      else (\<mu> x)\<lparr>Send := (Send (\<mu> x))\<lparr>buf7 := buf7 (Send (\<mu> x)) @ [m]\<rparr>\<rparr>)
                else \<mu> x)"
    proof (rule ext)
      fix x show "(if x \<in> set cs
                then (if full7 \<mu>1 x then (\<mu>1 x)\<lparr>Send := (Send (\<mu>1 x))\<lparr>closed := True\<rparr>\<rparr>
                      else (\<mu>1 x)\<lparr>Send := (Send (\<mu>1 x))\<lparr>buf7 := buf7 (Send (\<mu>1 x)) @ [m]\<rparr>\<rparr>)
                else \<mu>1 x)
           = (if x \<in> set (c # cs)
                then (if full7 \<mu> x then (\<mu> x)\<lparr>Send := (Send (\<mu> x))\<lparr>closed := True\<rparr>\<rparr>
                      else (\<mu> x)\<lparr>Send := (Send (\<mu> x))\<lparr>buf7 := buf7 (Send (\<mu> x)) @ [m]\<rparr>\<rparr>)
                else \<mu> x)"
        using False notin by (cases "x = c") (simp_all add: at_c other samefull)
    qed
    have "broadcastClients m (c # cs) (h, \<mu>) = broadcastClients m cs (h, \<mu>1)"
      using open_c False by (simp add: full7_def \<mu>1_def)
    then show ?thesis unfolding ih f g .
  next
    case True
    define \<mu>1 where "\<mu>1 = \<mu>(c := (\<mu> c)\<lparr>Send := (Send (\<mu> c))\<lparr>closed := True\<rparr>\<rparr>)"
    define h1 where "h1 = h\<lparr>clients := removeAll c (clients h)\<rparr>"
    have other: "\<mu>1 x = \<mu> x" if "x \<noteq> c" for x using that by (simp add: \<mu>1_def)
    have samefull: "full7 \<mu>1 x = full7 \<mu> x" if "x \<noteq> c" for x
      using other [OF that] by (simp add: full7_def)
    have at_c: "\<mu>1 c = (\<mu> c)\<lparr>Send := (Send (\<mu> c))\<lparr>closed := True\<rparr>\<rparr>"
      by (simp add: \<mu>1_def)
    have "\<forall>x \<in> set cs. \<not> closed (Send (\<mu>1 x))"
    proof
      fix x assume x: "x \<in> set cs"
      with notin have "x \<noteq> c" by auto
      then have "\<mu>1 x = \<mu> x" by (rule other)
      with x Cons.prems(2) show "\<not> closed (Send (\<mu>1 x))" by simp
    qed
    from Cons.IH [OF d this, of h1]
    have ih: "broadcastClients m cs (h1, \<mu>1) =
           Inr (h1\<lparr>clients := filter (\<lambda>x. \<not> (x \<in> set cs \<and> full7 \<mu>1 x)) (clients h1)\<rparr>,
                (\<lambda>x. if x \<in> set cs
                      then (if full7 \<mu>1 x then (\<mu>1 x)\<lparr>Send := (Send (\<mu>1 x))\<lparr>closed := True\<rparr>\<rparr>
                            else (\<mu>1 x)\<lparr>Send := (Send (\<mu>1 x))\<lparr>buf7 := buf7 (Send (\<mu>1 x)) @ [m]\<rparr>\<rparr>)
                      else \<mu>1 x))" .
    have f: "h1\<lparr>clients := filter (\<lambda>x. \<not> (x \<in> set cs \<and> full7 \<mu>1 x)) (clients h1)\<rparr>
               = h\<lparr>clients := filter (\<lambda>x. \<not> (x \<in> set (c # cs) \<and> full7 \<mu> x)) (clients h)\<rparr>"
    proof -
      have pred: "(x \<noteq> c \<and> \<not> (x \<in> set cs \<and> full7 \<mu>1 x)) = (\<not> (x \<in> set (c # cs) \<and> full7 \<mu> x))" for x
      proof (cases "x = c")
        case eq: True
        with True show ?thesis by simp
      next
        case ne: False
        then have "full7 \<mu>1 x = full7 \<mu> x" by (rule samefull)
        with ne show ?thesis by simp
      qed
      have "filter (\<lambda>x. \<not> (x \<in> set cs \<and> full7 \<mu>1 x)) (removeAll c (clients h))
              = filter (\<lambda>x. x \<noteq> c \<and> \<not> (x \<in> set cs \<and> full7 \<mu>1 x)) (clients h)"
        by (rule filter_removeAll)
      then have "filter (\<lambda>x. \<not> (x \<in> set cs \<and> full7 \<mu>1 x)) (removeAll c (clients h))
              = filter (\<lambda>x. \<not> (x \<in> set (c # cs) \<and> full7 \<mu> x)) (clients h)"
        unfolding pred .
      then show ?thesis by (simp add: h1_def)
    qed
    have g: "(\<lambda>x. if x \<in> set cs
                then (if full7 \<mu>1 x then (\<mu>1 x)\<lparr>Send := (Send (\<mu>1 x))\<lparr>closed := True\<rparr>\<rparr>
                      else (\<mu>1 x)\<lparr>Send := (Send (\<mu>1 x))\<lparr>buf7 := buf7 (Send (\<mu>1 x)) @ [m]\<rparr>\<rparr>)
                else \<mu>1 x)
           = (\<lambda>x. if x \<in> set (c # cs)
                then (if full7 \<mu> x then (\<mu> x)\<lparr>Send := (Send (\<mu> x))\<lparr>closed := True\<rparr>\<rparr>
                      else (\<mu> x)\<lparr>Send := (Send (\<mu> x))\<lparr>buf7 := buf7 (Send (\<mu> x)) @ [m]\<rparr>\<rparr>)
                else \<mu> x)"
    proof (rule ext)
      fix x show "(if x \<in> set cs
                then (if full7 \<mu>1 x then (\<mu>1 x)\<lparr>Send := (Send (\<mu>1 x))\<lparr>closed := True\<rparr>\<rparr>
                      else (\<mu>1 x)\<lparr>Send := (Send (\<mu>1 x))\<lparr>buf7 := buf7 (Send (\<mu>1 x)) @ [m]\<rparr>\<rparr>)
                else \<mu>1 x)
           = (if x \<in> set (c # cs)
                then (if full7 \<mu> x then (\<mu> x)\<lparr>Send := (Send (\<mu> x))\<lparr>closed := True\<rparr>\<rparr>
                      else (\<mu> x)\<lparr>Send := (Send (\<mu> x))\<lparr>buf7 := buf7 (Send (\<mu> x)) @ [m]\<rparr>\<rparr>)
                else \<mu> x)"
        using True notin by (cases "x = c") (simp_all add: at_c other samefull)
    qed
    have "broadcastClients m (c # cs) (h, \<mu>) = broadcastClients m cs (h1, \<mu>1)"
      using open_c True by (simp add: full7_def \<mu>1_def h1_def)
    then show ?thesis unfolding ih f g .
  qed
qed

text \<open>
  Claim C1, as the code has it. The room hub's turn on a broadcast always completes
  and returns the hub it was given: nobody is unregistered and no room changes. A
  session whose mailbox is full is left exactly as it was (the event is dropped for
  it; the room hub has no closed mailboxes), while in a well-formed hub every member
  of the room whose mailbox is not full gets the event appended. The room-less hub of
  part\_007 differs: when its clients are distinct and none of their mailboxes is
  closed, its broadcast completes, appends the message to every mailbox that is not
  full, and for every client with a full mailbox closes the mailbox and deletes the
  client from the client set.
\<close>

theorem full_mailbox_is_dropped_without_blocking:
  "run (Broadcast msg) (h, \<mu>) = Some (h, broadcastToRoom h (Room msg) msg \<mu>) \<and>
   (\<forall>c. full \<mu> c \<longrightarrow> broadcastToRoom h X msg \<mu> c = \<mu> c) \<and>
   (wf_hub h \<longrightarrow>
      (\<forall>c \<in> set (members h X). \<not> full \<mu> c \<longrightarrow>
         pending (broadcastToRoom h X msg \<mu>) c = pending \<mu> c @ [msg])) \<and>
   (distinct (clients g) \<and> (\<forall>c \<in> set (clients g). \<not> closed (Send (\<nu> c))) \<longrightarrow>
      (\<exists>g' \<nu>'. run7 (Broadcast7 m) (g, \<nu>) = Inr (g', \<nu>') \<and>
         clients g' = filter (\<lambda>c. \<not> full7 \<nu> c) (clients g) \<and>
         (\<forall>c \<in> set (clients g).
            \<nu>' c = (if full7 \<nu> c then (\<nu> c)\<lparr>Send := (Send (\<nu> c))\<lparr>closed := True\<rparr>\<rparr>
                    else (\<nu> c)\<lparr>Send := (Send (\<nu> c))\<lparr>buf7 := buf7 (Send (\<nu> c)) @ [m]\<rparr>\<rparr>)) \<and>
         (\<forall>c. c \<notin> set (clients g) \<longrightarrow> \<nu>' c = \<nu> c)))"
proof (intro conjI impI allI)
  show "run (Broadcast msg) (h, \<mu>) = Some (h, broadcastToRoom h (Room msg) msg \<mu>)" by simp
  show "broadcastToRoom h X msg \<mu> c = \<mu> c" if "full \<mu> c" for c
    using that by (simp add: broadcastToRoom_members fold_deliver_full)
  show "\<forall>c \<in> set (members h X). \<not> full \<mu> c \<longrightarrow>
         pending (broadcastToRoom h X msg \<mu>) c = pending \<mu> c @ [msg]" if wf: "wf_hub h"
  proof (intro ballI impI)
    fix c assume "c \<in> set (members h X)" "\<not> full \<mu> c"
    then show "pending (broadcastToRoom h X msg \<mu>) c = pending \<mu> c @ [msg]"
      by (simp add: pending_def [of "broadcastToRoom h X msg \<mu>"] broadcastToRoom_apply [OF wf]
          try_send_not_full)
  qed
next
  assume a: "distinct (clients g) \<and> (\<forall>c \<in> set (clients g). \<not> closed (Send (\<nu> c)))"
  then have d: "distinct (clients g)" and o: "\<forall>c \<in> set (clients g). \<not> closed (Send (\<nu> c))"
    by simp_all
  have keep: "filter (\<lambda>x. \<not> (x \<in> set (clients g) \<and> full7 \<nu> x)) (clients g)
                = filter (\<lambda>c. \<not> full7 \<nu> c) (clients g)"
    by (rule filter_cong [OF refl]) simp
  from broadcastClients_effect [OF d o, of m g, unfolded keep]
  show "\<exists>g' \<nu>'. run7 (Broadcast7 m) (g, \<nu>) = Inr (g', \<nu>') \<and>
         clients g' = filter (\<lambda>c. \<not> full7 \<nu> c) (clients g) \<and>
         (\<forall>c \<in> set (clients g).
            \<nu>' c = (if full7 \<nu> c then (\<nu> c)\<lparr>Send := (Send (\<nu> c))\<lparr>closed := True\<rparr>\<rparr>
                    else (\<nu> c)\<lparr>Send := (Send (\<nu> c))\<lparr>buf7 := buf7 (Send (\<nu> c)) @ [m]\<rparr>\<rparr>)) \<and>
         (\<forall>c. c \<notin> set (clients g) \<longrightarrow> \<nu>' c = \<nu> c)"
    by simp
qed

theorem full_mailbox_is_dropped_without_blocking_counterexample:
  "cap (send (slowHeap 7)) = 1 \<and> pending slowHeap 7 = [] \<and> members slowHub ''lobby'' = [7, 8] \<and>
   runAll [Broadcast chatHi, Broadcast chatAgain] (slowHub, slowHeap)
     = Some (slowHub,
             slowHeap(7 := \<lparr>send = \<lparr>buf = [chatHi], cap = 1\<rparr>, username = ''S'', room = ''lobby''\<rparr>,
                      8 := \<lparr>send = \<lparr>buf = [chatHi, chatAgain], cap = 256\<rparr>, username = ''A'', room = ''lobby''\<rparr>))"
proof -
  have "runAll [Broadcast chatHi, Broadcast chatAgain] (slowHub, slowHeap)
     = Some (slowHub,
             slowHeap(7 := \<lparr>send = \<lparr>buf = [chatHi], cap = 1\<rparr>, username = ''S'', room = ''lobby''\<rparr>,
                      8 := \<lparr>send = \<lparr>buf = [chatHi, chatAgain], cap = 256\<rparr>, username = ''A'', room = ''lobby''\<rparr>))"
    by (auto simp: slowHub_def slowHeap_def chatHi_def chatAgain_def broadcastToRoom_def
        deliver_def try_send_def serveWsClient_def fun_eq_iff)
  moreover have "cap (send (slowHeap 7)) = 1" "pending slowHeap 7 = []"
    "members slowHub ''lobby'' = [7, 8]"
    by (simp_all add: slowHeap_def slowHub_def pending_def members_def)
  ultimately show ?thesis by (intro conjI)
qed

theorem full_mailbox_is_dropped_without_blocking_witness:
  "full (deliver 7 chatHi slowHeap) 7 \<and> wf_hub slowHub \<and> \<not> full (deliver 7 chatHi slowHeap) 8 \<and>
   members slowHub ''lobby'' = [7, 8] \<and>
   broadcastToRoom slowHub ''lobby'' chatAgain (deliver 7 chatHi slowHeap) 7 = deliver 7 chatHi slowHeap 7 \<and>
   pending (broadcastToRoom slowHub ''lobby'' chatAgain (deliver 7 chatHi slowHeap)) 8 = [chatAgain] \<and>
   distinct (clients slowHub7) \<and> \<not> closed (Send (slowHeap7 7)) \<and> \<not> closed (Send (slowHeap7 8)) \<and>
   map_sum id (\<lambda>s. (clients (fst s), closed (Send (snd s 7)), buf7 (Send (snd s 7)), buf7 (Send (snd s 8))))
     (runAll7 [Broadcast7 ''a'', Broadcast7 ''b''] (slowHub7, slowHeap7))
     = Inr ([8], True, [''a''], [''a'', ''b''])"
proof -
  note main = full_mailbox_is_dropped_without_blocking
  let ?\<mu> = "deliver 7 chatHi slowHeap"
  have f7: "full ?\<mu> 7" and nf8: "\<not> full ?\<mu> 8" and p8: "pending ?\<mu> 8 = []"
    by (simp_all add: full_def pending_def deliver_def try_send_def slowHeap_def serveWsClient_def)
  have wf: "wf_hub slowHub" by (simp add: wf_hub_def slowHub_def)
  have mem: "members slowHub ''lobby'' = [7, 8]" by (simp add: members_def slowHub_def)
  from main [of chatAgain slowHub ?\<mu> "''lobby''", THEN conjunct2, THEN conjunct1] f7
  have a: "broadcastToRoom slowHub ''lobby'' chatAgain ?\<mu> 7 = ?\<mu> 7" by blast
  from main [of chatAgain slowHub ?\<mu> "''lobby''", THEN conjunct2, THEN conjunct2, THEN conjunct1,
      THEN mp, OF wf] nf8
  have b: "pending (broadcastToRoom slowHub ''lobby'' chatAgain ?\<mu>) 8 = [chatAgain]"
    by (simp add: mem p8)
  define \<nu>1 :: heap7 where
    "\<nu>1 = (\<lambda>c. if c = 7 then \<lparr>Send = \<lparr>buf7 = [''a''], cap7 = 1, closed = False\<rparr>\<rparr>
               else if c = 8 then \<lparr>Send = \<lparr>buf7 = [''a''], cap7 = 256, closed = False\<rparr>\<rparr>
               else \<lparr>Send = \<lparr>buf7 = [], cap7 = 256, closed = False\<rparr>\<rparr>)"
  have first: "run7 (Broadcast7 ''a'') (slowHub7, slowHeap7) = Inr (slowHub7, \<nu>1)"
    by (auto simp: slowHub7_def slowHeap7_def \<nu>1_def fun_eq_iff)
  have d: "distinct (clients slowHub7)" by (simp add: slowHub7_def)
  have o: "\<forall>c \<in> set (clients slowHub7). \<not> closed (Send (\<nu>1 c))"
    by (simp add: slowHub7_def \<nu>1_def)
  from main [of _ _ _ _ slowHub7 \<nu>1 "''b''", THEN conjunct2, THEN conjunct2, THEN conjunct2,
      THEN mp, OF conjI [OF d o]]
  obtain g' \<nu>' where second: "run7 (Broadcast7 ''b'') (slowHub7, \<nu>1) = Inr (g', \<nu>')"
    and cl: "clients g' = filter (\<lambda>c. \<not> full7 \<nu>1 c) (clients slowHub7)"
    and at: "\<forall>c \<in> set (clients slowHub7).
               \<nu>' c = (if full7 \<nu>1 c then (\<nu>1 c)\<lparr>Send := (Send (\<nu>1 c))\<lparr>closed := True\<rparr>\<rparr>
                       else (\<nu>1 c)\<lparr>Send := (Send (\<nu>1 c))\<lparr>buf7 := buf7 (Send (\<nu>1 c)) @ [''b'']\<rparr>\<rparr>)"
    by blast
  have fulls: "full7 \<nu>1 7" "\<not> full7 \<nu>1 8" by (simp_all add: full7_def \<nu>1_def)
  have both: "runAll7 [Broadcast7 ''a'', Broadcast7 ''b''] (slowHub7, slowHeap7) = Inr (g', \<nu>')"
    by (simp only: runAll7.simps first second sum.case)
  have "clients g' = [8]" using cl fulls by (simp add: slowHub7_def)
  moreover have "closed (Send (\<nu>' 7))" "buf7 (Send (\<nu>' 7)) = [''a'']" "buf7 (Send (\<nu>' 8)) = [''a'', ''b'']"
    using at fulls by (simp_all add: slowHub7_def) (simp_all add: \<nu>1_def)
  ultimately have c: "map_sum id (\<lambda>s. (clients (fst s), closed (Send (snd s 7)), buf7 (Send (snd s 7)), buf7 (Send (snd s 8))))
     (runAll7 [Broadcast7 ''a'', Broadcast7 ''b''] (slowHub7, slowHeap7))
     = Inr ([8], True, [''a''], [''a'', ''b''])"
    unfolding both by simp
  have o7: "\<not> closed (Send (slowHeap7 7))" "\<not> closed (Send (slowHeap7 8))"
    by (simp_all add: slowHeap7_def)
  from f7 wf nf8 mem a b d o7 c show ?thesis by (intro conjI)
qed

subsection \<open>Commands\<close>

lemma length_seatsOf: "length (seatsOf al) = sum_list (map (\<lambda>(k, r). length (Clients r)) al)"
  by (induction al) (auto simp: seatsOf_Cons)

lemma total_users: "sum_list (map snd (roomDetails h)) = length (sessions h)"
  by (simp add: roomDetails_def sessions_def seats_def length_seatsOf comp_def case_prod_unfold)

lemma deliver_blocking_append:
  "\<not> full \<mu> c \<Longrightarrow>
     deliver_blocking c m \<mu> = Some (\<mu>(c := (\<mu> c)\<lparr>send := (send (\<mu> c))\<lparr>buf := pending \<mu> c @ [m]\<rparr>\<rparr>))"
  by (simp add: deliver_blocking_def send_blocking_def full_def pending_def)

text \<open>
  Claim C2, as the code has it. \<open>handleCommand\<close> never changes the hub. For
  \<open>/stats\<close>, \<open>/rooms\<close> and every unrecognized command it puts exactly one reply
  at the end of the mailbox of the issuing session (which must have room for it) and
  touches no other session: for \<open>/stats\<close> the marshalled total session count, room
  count and per-room member counts; for \<open>/rooms\<close> the names of all rooms of the
  directory; otherwise the fixed text \<open>Unknown command\<close>. For \<open>/users\<close> it does
  what \<open>sendUserListToRoom\<close> does for the caller's room: the \<open>user_list\<close> event
  with the usernames of the members of that room is offered, by the non-blocking
  send, to every member of the room, the caller being one of them only if it is a
  member; sessions outside the room are untouched.
\<close>

theorem command_replies:
  "(\<not> full \<mu> c \<longrightarrow>
      handleCommand marshal h c ''/stats'' now \<mu>
        = Some (\<mu>(c := (\<mu> c)\<lparr>send := (send (\<mu> c))\<lparr>buf := pending \<mu> c @
            [\<lparr>Type = ''stats'', Room = room (\<mu> c), Username = ''SYSTEM'',
              Text = marshal (length (sessions h)) (length (rooms h))
                       (map (\<lambda>(k, r). (k, length (Clients r))) (rooms h)),
              Time = now\<rparr>]\<rparr>\<rparr>)) \<and>
      handleCommand marshal h c ''/rooms'' now \<mu>
        = Some (\<mu>(c := (\<mu> c)\<lparr>send := (send (\<mu> c))\<lparr>buf := pending \<mu> c @
            [\<lparr>Type = ''system'', Room = room (\<mu> c), Username = ''SYSTEM'',
              Text = roomsText (map fst (rooms h)), Time = now\<rparr>]\<rparr>\<rparr>)) \<and>
      (cmd \<noteq> ''/users'' \<and> cmd \<noteq> ''/stats'' \<and> cmd \<noteq> ''/rooms'' \<longrightarrow>
         handleCommand marshal h c cmd now \<mu>
           = Some (\<mu>(c := (\<mu> c)\<lparr>send := (send (\<mu> c))\<lparr>buf := pending \<mu> c @
               [\<lparr>Type = ''system'', Room = room (\<mu> c), Username = ''SYSTEM'',
                 Text = ''Unknown command'', Time = now\<rparr>]\<rparr>\<rparr>)))) \<and>
   (wf_hub h \<longrightarrow>
      (\<exists>\<mu>'. handleCommand marshal h c ''/users'' now \<mu> = Some \<mu>' \<and>
         (\<forall>x. \<mu>' x =
            (if x \<in> set (members h (room (\<mu> c)))
             then (\<mu> x)\<lparr>send := try_send (send (\<mu> x))
                    (userListMessage (room (\<mu> c))
                       (map (\<lambda>x. username (\<mu> x)) (members h (room (\<mu> c)))) now)\<rparr>
             else \<mu> x))))"
proof (intro conjI impI)
  assume nf: "\<not> full \<mu> c"
  show "handleCommand marshal h c ''/stats'' now \<mu>
        = Some (\<mu>(c := (\<mu> c)\<lparr>send := (send (\<mu> c))\<lparr>buf := pending \<mu> c @
            [\<lparr>Type = ''stats'', Room = room (\<mu> c), Username = ''SYSTEM'',
              Text = marshal (length (sessions h)) (length (rooms h))
                       (map (\<lambda>(k, r). (k, length (Clients r))) (rooms h)),
              Time = now\<rparr>]\<rparr>\<rparr>))"
    using total_users [of h]
    by (simp add: handleCommand_def Let_def deliver_blocking_append [OF nf] systemReply_def)
      (simp add: roomDetails_def)
  show "handleCommand marshal h c ''/rooms'' now \<mu>
        = Some (\<mu>(c := (\<mu> c)\<lparr>send := (send (\<mu> c))\<lparr>buf := pending \<mu> c @
            [\<lparr>Type = ''system'', Room = room (\<mu> c), Username = ''SYSTEM'',
              Text = roomsText (map fst (rooms h)), Time = now\<rparr>]\<rparr>\<rparr>))"
    by (simp add: handleCommand_def deliver_blocking_append [OF nf] systemReply_def)
  show "handleCommand marshal h c cmd now \<mu>
           = Some (\<mu>(c := (\<mu> c)\<lparr>send := (send (\<mu> c))\<lparr>buf := pending \<mu> c @
               [\<lparr>Type = ''system'', Room = room (\<mu> c), Username = ''SYSTEM'',
                 Text = ''Unknown command'', Time = now\<rparr>]\<rparr>\<rparr>))"
    if "cmd \<noteq> ''/users'' \<and> cmd \<noteq> ''/stats'' \<and> cmd \<noteq> ''/rooms''"
    using that by (simp add: handleCommand_def deliver_blocking_append [OF nf] systemReply_def)
next
  assume wf: "wf_hub h"
  have "handleCommand marshal h c ''/users'' now \<mu>
          = Some (broadcastToRoom h (room (\<mu> c))
                    (userListMessage (room (\<mu> c))
                       (map (\<lambda>x. username (\<mu> x)) (members h (room (\<mu> c)))) now) \<mu>)"
    by (simp add: handleCommand_def sendUserListToRoom_members)
  then show "\<exists>\<mu>'. handleCommand marshal h c ''/users'' now \<mu> = Some \<mu>' \<and>
         (\<forall>x. \<mu>' x =
            (if x \<in> set (members h (room (\<mu> c)))
             then (\<mu> x)\<lparr>send := try_send (send (\<mu> x))
                    (userListMessage (room (\<mu> c))
                       (map (\<lambda>x. username (\<mu> x)) (members h (room (\<mu> c)))) now)\<rparr>
             else \<mu> x))"
    using broadcastToRoom_apply [OF wf] by simp
qed

theorem command_replies_counterexample:
  "members lobbyHub ''lobby'' = [1, 2] \<and> room (lobbyHeap 1) = ''lobby'' \<and>
   handleCommand demoMarshal lobbyHub 1 ''/users'' t0 lobbyHeap
     = Some (lobbyHeap
         (1 := \<lparr>send = \<lparr>buf = [userListMessage ''lobby'' [''A'', ''B''] t0], cap = 256\<rparr>,
                username = ''A'', room = ''lobby''\<rparr>,
          2 := \<lparr>send = \<lparr>buf = [userListMessage ''lobby'' [''A'', ''B''] t0], cap = 256\<rparr>,
                username = ''B'', room = ''lobby''\<rparr>))"
proof -
  have "handleCommand demoMarshal lobbyHub 1 ''/users'' t0 lobbyHeap
     = Some (lobbyHeap
         (1 := \<lparr>send = \<lparr>buf = [userListMessage ''lobby'' [''A'', ''B''] t0], cap = 256\<rparr>,
                username = ''A'', room = ''lobby''\<rparr>,
          2 := \<lparr>send = \<lparr>buf = [userListMessage ''lobby'' [''A'', ''B''] t0], cap = 256\<rparr>,
                username = ''B'', room = ''lobby''\<rparr>))"
    by (auto simp: handleCommand_def sendUserListToRoom_def broadcastToRoom_def Let_def
        lobbyHub_def lobbyHeap_def serveWsClient_def deliver_def try_send_def fun_eq_iff)
  moreover have "members lobbyHub ''lobby'' = [1, 2]" "room (lobbyHeap 1) = ''lobby''"
    by (simp_all add: members_def lobbyHub_def lobbyHeap_def serveWsClient_def)
  ultimately show ?thesis by (intro conjI)
qed

theorem command_replies_witness:
  "\<not> full lobbyHeap 3 \<and> wf_hub lobbyHub \<and>
   ''/help'' \<noteq> ''/users'' \<and> ''/help'' \<noteq> ''/stats'' \<and> ''/help'' \<noteq> ''/rooms'' \<and>
   map_option (\<lambda>\<mu>. map (pending \<mu>) [1, 2, 3]) (handleCommand demoMarshal lobbyHub 3 ''/stats'' t0 lobbyHeap)
     = Some [[], [], [\<lparr>Type = ''stats'', Room = ''r2'', Username = ''SYSTEM'',
                       Text = ''3 users in 2 rooms'', Time = t0\<rparr>]] \<and>
   map_option (\<lambda>\<mu>. map (pending \<mu>) [1, 2, 3]) (handleCommand demoMarshal lobbyHub 3 ''/rooms'' t0 lobbyHeap)
     = Some [[], [], [\<lparr>Type = ''system'', Room = ''r2'', Username = ''SYSTEM'',
                       Text = roomsText [''lobby'', ''r2''], Time = t0\<rparr>]] \<and>
   map_option (\<lambda>\<mu>. map (pending \<mu>) [1, 2, 3]) (handleCommand demoMarshal lobbyHub 3 ''/help'' t0 lobbyHeap)
     = Some [[], [], [\<lparr>Type = ''system'', Room = ''r2'', Username = ''SYSTEM'',
                       Text = ''Unknown command'', Time = t0\<rparr>]] \<and>
   map_option (\<lambda>\<mu>. map (pending \<mu>) [1, 2, 3]) (handleCommand demoMarshal lobbyHub 3 ''/users'' t0 lobbyHeap)
     = Some [[], [], [userListMessage ''r2'' [''C''] t0]]"
proof -
  note main = command_replies [of lobbyHeap 3 demoMarshal lobbyHub t0 "''/help''"]
  have nf: "\<not> full lobbyHeap 3" by (rule lobby_facts)
  have ne: "''/help'' \<noteq> ''/users''" "''/help'' \<noteq> ''/stats''" "''/help'' \<noteq> ''/rooms''" by simp_all
  have r3: "room (lobbyHeap 3) = ''r2''" by (simp add: lobbyHeap_def serveWsClient_def)
  have rooms: "rooms lobbyHub = [(''lobby'', \<lparr>Name = ''lobby'', Clients = [1, 2]\<rparr>),
                         (''r2'', \<lparr>Name = ''r2'', Clients = [3]\<rparr>)]"
    by (simp add: lobbyHub_def)
  have other: "pending (lobbyHeap(3 := v)) 1 = []" "pending (lobbyHeap(3 := v)) 2 = []" for v
    by (simp_all add: pending_def lobby_facts)
  note direct = main [THEN conjunct1, THEN mp, OF nf]
  have a: "map_option (\<lambda>\<mu>. map (pending \<mu>) [1, 2, 3]) (handleCommand demoMarshal lobbyHub 3 ''/stats'' t0 lobbyHeap)
     = Some [[], [], [\<lparr>Type = ''stats'', Room = ''r2'', Username = ''SYSTEM'',
                       Text = ''3 users in 2 rooms'', Time = t0\<rparr>]]"
    unfolding direct [THEN conjunct1]
    by (simp add: other) (simp add: pending_def lobby_facts r3 rooms demoMarshal_def Itoa.simps)
  have b: "map_option (\<lambda>\<mu>. map (pending \<mu>) [1, 2, 3]) (handleCommand demoMarshal lobbyHub 3 ''/rooms'' t0 lobbyHeap)
     = Some [[], [], [\<lparr>Type = ''system'', Room = ''r2'', Username = ''SYSTEM'',
                       Text = roomsText [''lobby'', ''r2''], Time = t0\<rparr>]]"
    unfolding direct [THEN conjunct2, THEN conjunct1]
    by (simp add: other) (simp add: pending_def lobby_facts r3 rooms)
  have c: "map_option (\<lambda>\<mu>. map (pending \<mu>) [1, 2, 3]) (handleCommand demoMarshal lobbyHub 3 ''/help'' t0 lobbyHeap)
     = Some [[], [], [\<lparr>Type = ''system'', Room = ''r2'', Username = ''SYSTEM'',
                       Text = ''Unknown command'', Time = t0\<rparr>]]"
    unfolding direct [THEN conjunct2, THEN conjunct2, THEN mp, OF conjI [OF ne(1) conjI [OF ne(2) ne(3)]]]
    by (simp add: other) (simp add: pending_def lobby_facts r3)
  from main [THEN conjunct2, THEN mp, OF wf_lobbyHub]
  obtain \<mu>' where u: "handleCommand demoMarshal lobbyHub 3 ''/users'' t0 lobbyHeap = Some \<mu>'"
    and at: "\<And>x. \<mu>' x =
            (if x \<in> set (members lobbyHub (room (lobbyHeap 3)))
             then (lobbyHeap x)\<lparr>send := try_send (send (lobbyHeap x))
                    (userListMessage (room (lobbyHeap 3))
                       (map (\<lambda>x. username (lobbyHeap x)) (members lobbyHub (room (lobbyHeap 3)))) t0)\<rparr>
             else lobbyHeap x)"
    by blast
  have "map (pending \<mu>') [1, 2, 3] = [[], [], [userListMessage ''r2'' [''C''] t0]]"
    by (simp add: pending_def [of \<mu>'] at r3 lobby_facts try_send_def)
      (simp add: lobbyHeap_def serveWsClient_def)
  then have d: "map_option (\<lambda>\<mu>. map (pending \<mu>) [1, 2, 3]) (handleCommand demoMarshal lobbyHub 3 ''/users'' t0 lobbyHeap)
     = Some [[], [], [userListMessage ''r2'' [''C''] t0]]"
    unfolding u by simp
  from nf wf_lobbyHub ne a b c d show ?thesis by (intro conjI)
qed

subsection \<open>The hypotheses used above hold in every reachable state\<close>

lemma room_deliver [simp]: "room (deliver c m \<mu> x) = room (\<mu> x)"
  by (simp add: deliver_def)

lemma room_fold_deliver [simp]: "room (fold (\<lambda>c. deliver c m) cs \<mu> x) = room (\<mu> x)"
  by (induction cs arbitrary: \<mu>) simp_all

lemma room_broadcastToRoom [simp]: "room (broadcastToRoom h X m \<mu> x) = room (\<mu> x)"
  by (simp add: broadcastToRoom_members)

lemma room_sendUserListToRoom [simp]: "room (sendUserListToRoom h X now \<mu> x) = room (\<mu> x)"
  by (simp add: sendUserListToRoom_members)

lemma room_deliver_blocking:
  "deliver_blocking c m \<mu> = Some \<mu>' \<Longrightarrow> room (\<mu>' x) = room (\<mu> x)"
  by (auto simp: deliver_blocking_def split: option.splits)

lemma room_replayHistory:
  "replayHistory c ns \<mu> = Some \<mu>' \<Longrightarrow> room (\<mu>' x) = room (\<mu> x)"
proof (induction ns arbitrary: \<mu>)
  case Nil
  then show ?case by simp
next
  case (Cons n ns)
  show ?case
  proof (cases "replayWanted (\<mu> c) n")
    case False
    with Cons show ?thesis by simp
  next
    case True
    with Cons.prems obtain \<mu>1 where d: "deliver_blocking c (replayMessage (\<mu> c) n) \<mu> = Some \<mu>1"
      and r: "replayHistory c ns \<mu>1 = Some \<mu>'"
      by (auto split: option.splits)
    from Cons.IH [OF r] room_deliver_blocking [OF d] show ?thesis by simp
  qed
qed

lemma room_run:
  assumes "run q (h, \<mu>) = Some (h', \<mu>')"
  shows "room (\<mu>' x) = room (\<mu> x)"
proof (cases q)
  case (Register c tj tu)
  with assms show ?thesis
    by (auto simp: addClientToRoom_def Let_def split: prod.splits option.splits
        dest!: room_replayHistory [where x = x])
next
  case (Unregister c tv tu)
  with assms show ?thesis
    by (auto simp: removeClientFromRoom_def Let_def split: option.splits)
next
  case (Broadcast msg)
  with assms show ?thesis by auto
qed

lemma placed_lookup:
  "distinct (map fst (rooms h)) \<Longrightarrow>
     placed h \<mu> \<longleftrightarrow> (\<forall>k r. map_of (rooms h) k = Some r \<longrightarrow> (\<forall>c \<in> set (Clients r). room (\<mu> c) = k))"
  by (auto simp: placed_def)

lemma placed_run:
  assumes inv: "hub_inv h" and pl: "placed h \<mu>" and run: "run q (h, \<mu>) = Some (h', \<mu>')"
  shows "placed h' \<mu>'"
proof -
  from inv have wf: "wf_hub h" by (simp add: hub_inv_def)
  then have d: "distinct (map fst (rooms h))" by (simp add: wf_hub_def)
  from hub_inv_run [OF inv run] have d': "distinct (map fst (rooms h'))"
    by (simp add: hub_inv_def wf_hub_def)
  note same = room_run [OF run]
  from pl d have old: "\<And>k r c. map_of (rooms h) k = Some r \<Longrightarrow> c \<in> set (Clients r) \<Longrightarrow> room (\<mu> c) = k"
    by (simp add: placed_lookup del: map_of_eq_Some_iff)
  have "room (\<mu>' c) = k" if look: "map_of (rooms h') k = Some r" and c: "c \<in> set (Clients r)" for k r c
  proof (cases q)
    case (Register c0 tj tu)
    with run have add: "addClientToRoom h c0 tj tu \<mu> = Some (h', \<mu>')" by simp
    from look c old [of k _ c] old [of "room (\<mu> c0)" _ c] show ?thesis
      unfolding addClientToRoom_rooms(2) [OF add] AList.update_conv' same
      by (auto simp del: map_of_eq_Some_iff split: if_splits option.splits)
  next
    case (Unregister c0 tv tu)
    with run have h': "h' = fst (removeClientFromRoom h c0 tv tu \<mu>)" by auto
    from look c old [of k _ c] old [of "room (\<mu> c0)" _ c] show ?thesis
      unfolding h' removeClientFromRoom_rooms [OF wf] same
      by (auto simp: AList.update_conv' AList.delete_conv' simp del: map_of_eq_Some_iff
          split: if_splits option.splits)
  next
    case (Broadcast msg)
    with run have "h' = h" by auto
    with look c old [of k r c] show ?thesis by (simp add: same)
  qed
  then show ?thesis using d' by (simp add: placed_lookup del: map_of_eq_Some_iff)
qed

lemma placed_runAll:
  "hub_inv (fst s) \<Longrightarrow> placed (fst s) (snd s) \<Longrightarrow> runAll qs s = Some s' \<Longrightarrow>
     placed (fst s') (snd s')"
proof (induction qs arbitrary: s)
  case Nil
  then show ?case by simp
next
  case (Cons q qs)
  from Cons.prems(3) obtain s1 where s1: "run q s = Some s1" and rest: "runAll qs s1 = Some s'"
    by (auto split: option.splits)
  from s1 have step: "run q (fst s, snd s) = Some (fst s1, snd s1)" by simp
  have "hub_inv (fst s1)" using Cons.prems(1) step by (rule hub_inv_run)
  moreover have "placed (fst s1) (snd s1)" using Cons.prems(1,2) step by (rule placed_run)
  ultimately show ?case using rest by (rule Cons.IH)
qed

lemma placed_sessions_distinct:
  assumes "distinct (map fst al)" "\<forall>(k, r) \<in> set al. distinct (Clients r)"
    and "\<forall>(k, r) \<in> set al. \<forall>c \<in> set (Clients r). room (\<mu> c) = k"
  shows "distinct (map snd (seatsOf al))"
  using assms
proof (induction al)
  case Nil
  then show ?case by simp
next
  case (Cons p al)
  obtain k r where p: "p = (k, r)" by (cases p)
  have "c \<notin> snd ` set (seatsOf al)" if "c \<in> set (Clients r)" for c
  proof
    assume "c \<in> snd ` set (seatsOf al)"
    then obtain k' where "(k', c) \<in> set (seatsOf al)" by force
    then obtain r' where in_al: "(k', r') \<in> set al" and "c \<in> set (Clients r')"
      by (auto simp: in_seatsOf)
    with Cons.prems(3) have "room (\<mu> c) = k'" by auto
    moreover from that Cons.prems(3) p have "room (\<mu> c) = k" by auto
    moreover from in_al Cons.prems(1) p have "k' \<noteq> k" by force
    ultimately show False by simp
  qed
  moreover from Cons have "distinct (map snd (seatsOf al))" by simp
  moreover from Cons.prems(2) p have "distinct (Clients r)" by simp
  ultimately show ?case
    by (auto simp: p seatsOf_Cons comp_def)
qed

text \<open>Every state the control loop reaches from the new hub is well formed, and each of
  its sessions sits in one room only.\<close>

lemma reachable_invariants:
  assumes "runAll qs (NewHub, \<mu>0) = Some (h, \<mu>)"
  shows "wf_hub h" and "distinct (sessions h)"
proof -
  have i0: "hub_inv (fst (NewHub, \<mu>0))" by (simp add: hub_inv_NewHub)
  have p0: "placed (fst (NewHub, \<mu>0)) (snd (NewHub, \<mu>0))" by (simp add: placed_def NewHub_def)
  from hub_inv_runAll [OF i0 assms] show wf: "wf_hub h" by (simp add: hub_inv_def)
  from placed_runAll [OF i0 p0 assms] have "placed h \<mu>" by simp
  with wf show "distinct (sessions h)"
    unfolding sessions_def seats_def
    by (intro placed_sessions_distinct [where \<mu> = \<mu>]) (auto simp: wf_hub_def placed_def)
qed

subsection \<open>Unregistering a session that is not in its room\<close>

lemma username_fold_deliver [simp]: "username (fold (\<lambda>c. deliver c m) cs \<mu> x) = username (\<mu> x)"
  by (induction cs arbitrary: \<mu>) simp_all

lemma username_broadcastToRoom [simp]: "username (broadcastToRoom h X m \<mu> x) = username (\<mu> x)"
  by (simp add: broadcastToRoom_members)

lemma username_sendUserListToRoom [simp]: "username (sendUserListToRoom h X now \<mu> x) = username (\<mu> x)"
  by (simp add: sendUserListToRoom_members)

lemma fields_removeClientFromRoom:
  "room (snd (removeClientFromRoom h c tv tu \<mu>) x) = room (\<mu> x)"
  "username (snd (removeClientFromRoom h c tv tu \<mu>) x) = username (\<mu> x)"
  by (simp_all add: removeClientFromRoom_def Let_def split: option.splits)

lemma removeClientFromRoom_absent:
  assumes inv: "hub_inv h" and ab: "c \<notin> set (members h (room (\<mu> c)))"
  shows "removeClientFromRoom h c tv tu \<mu> =
           (h, sendUserListToRoom h (room (\<mu> c)) tu
                 (broadcastToRoom h (room (\<mu> c))
                    (leaveMessage (room (\<mu> c)) (username (\<mu> c)) tv) \<mu>))"
proof (cases "map_of (rooms h) (room (\<mu> c))")
  case None
  then show ?thesis
    by (simp add: removeClientFromRoom_def sendUserListToRoom_def broadcastToRoom_def)
next
  case (Some r)
  with inv have nm: "Name r = room (\<mu> c)" and ne: "Clients r \<noteq> []"
    by (simp_all add: hub_inv_lookup del: map_of_eq_Some_iff)
  from Some ab have nin: "c \<notin> set (Clients r)" by (simp add: members_def)
  from Some have same: "AList.update (room (\<mu> c)) r (rooms h) = rooms h"
    by (simp add: AList.update_triv)
  show ?thesis
    using Some nm ne nin
    by (simp add: removeClientFromRoom_def setRoom_def Let_def same)
qed

lemma announce_twice:
  assumes wf: "wf_hub h" and x: "x \<in> set (members h k)"
    and sp: "length (pending \<mu> x) + 2 \<le> cap (send (\<mu> x))"
  shows "pending (sendUserListToRoom h k tu (broadcastToRoom h k m \<mu>)) x =
           pending \<mu> x @ [m, userListMessage k (map (\<lambda>y. username (\<mu> y)) (members h k)) tu]"
proof -
  have users: "map (\<lambda>y. username (broadcastToRoom h k m \<mu> y)) (members h k)
                 = map (\<lambda>y. username (\<mu> y)) (members h k)"
    by simp
  show ?thesis
    unfolding sendUserListToRoom_members users
    using x sp by (simp add: broadcastToRoom_apply [OF wf] pending_def try_send_def)
qed

lemma announce_other:
  assumes wf: "wf_hub h" and x: "x \<notin> set (members h k)"
  shows "sendUserListToRoom h k tu (broadcastToRoom h k m \<mu>) x = \<mu> x"
  unfolding sendUserListToRoom_members
  using x by (simp add: broadcastToRoom_apply [OF wf])

lemma members_other_room:
  "map_of (rooms h') k = map_of (rooms h) k \<Longrightarrow> members h' k = members h k"
  by (simp add: members_def)

lemma live_run:
  assumes inv: "hub_inv h"
    and live: "\<forall>x \<in> set live. x \<in> set (members h (room (\<mu> x)))"
    and run: "run q (h, \<mu>) = Some (h', \<mu>')"
  shows "\<forall>x \<in> set (case q of Register c tj tu \<Rightarrow> c # live
                          | Unregister c tv tu \<Rightarrow> removeAll c live
                          | Broadcast msg \<Rightarrow> live). x \<in> set (members h' (room (\<mu>' x)))"
proof (cases q)
  case (Register c tj tu)
  with run have add: "addClientToRoom h c tj tu \<mu> = Some (h', \<mu>')" by simp
  note same = room_run [OF run]
  have "x \<in> set (members h' (room (\<mu> x)))" if "x \<in> set (c # live)" for x
  proof (cases "room (\<mu> x) = room (\<mu> c)")
    case True
    from that live True have "x = c \<or> x \<in> set (members h (room (\<mu> c)))" by auto
    then show ?thesis unfolding True members_after_add(2) [OF add] by auto
  next
    case False
    with that live have "x \<in> set (members h (room (\<mu> x)))" by auto
    with members_other_room [OF members_after_add(3) [of h c tj tu \<mu> h' \<mu>' "room (\<mu> x)", OF add False]] show ?thesis by simp
  qed
  then show ?thesis by (simp add: Register same)
next
  case (Unregister c tv tu)
  with run have h': "h' = fst (removeClientFromRoom h c tv tu \<mu>)" by auto
  from inv have wf: "wf_hub h" by (simp add: hub_inv_def)
  note same = room_run [OF run]
  have "x \<in> set (members h' (room (\<mu> x)))" if "x \<in> set (removeAll c live)" for x
  proof (cases "room (\<mu> x) = room (\<mu> c)")
    case True
    from that live True have "x \<noteq> c" "x \<in> set (members h (room (\<mu> c)))" by auto
    then show ?thesis unfolding True h' members_after_remove(1) [OF wf] by simp
  next
    case False
    from that live have "x \<in> set (members h (room (\<mu> x)))" by auto
    with members_other_room [OF members_after_remove(3) [of h "room (\<mu> x)" \<mu> c tv tu, OF wf False]] show ?thesis
      unfolding h' by simp
  qed
  then show ?thesis by (simp add: Unregister same)
next
  case (Broadcast msg)
  with run have "h' = h" by auto
  with live show ?thesis by (simp add: Broadcast room_run [OF run])
qed

lemma served_unregister_present:
  assumes "served live seen (pre @ Unregister c tv tu # post)"
    and "hub_inv (fst s)"
    and "\<forall>x \<in> set live. x \<in> set (members (fst s) (room (snd s x)))"
    and "runAll pre s = Some s'"
  shows "c \<in> set (members (fst s') (room (snd s' c)))"
  using assms
proof (induction pre arbitrary: live seen s)
  case Nil
  then show ?case by simp
next
  case (Cons q pre)
  from Cons.prems(4) obtain s1 where s1: "run q s = Some s1" and rest: "runAll pre s1 = Some s'"
    by (auto split: option.splits)
  from s1 have step: "run q (fst s, snd s) = Some (fst s1, snd s1)" by simp
  have inv1: "hub_inv (fst s1)" using Cons.prems(2) step by (rule hub_inv_run)
  note live1 = live_run [OF Cons.prems(2,3) step]
  show ?case
  proof (cases q)
    case (Register c0 tj tu0)
    with Cons.prems(1) have "served (c0 # live) (c0 # seen) (pre @ Unregister c tv tu # post)"
      by simp
    moreover from live1 have "\<forall>x \<in> set (c0 # live). x \<in> set (members (fst s1) (room (snd s1 x)))"
      by (simp add: Register)
    ultimately show ?thesis using inv1 rest by (intro Cons.IH)
  next
    case (Unregister c0 tv0 tu0)
    with Cons.prems(1) have "served (removeAll c0 live) seen (pre @ Unregister c tv tu # post)"
      by simp
    moreover from live1 have "\<forall>x \<in> set (removeAll c0 live). x \<in> set (members (fst s1) (room (snd s1 x)))"
      by (simp add: Unregister)
    ultimately show ?thesis using inv1 rest by (intro Cons.IH)
  next
    case (Broadcast msg)
    with Cons.prems(1) have "served live seen (pre @ Unregister c tv tu # post)"
      by simp
    moreover from live1 have "\<forall>x \<in> set live. x \<in> set (members (fst s1) (room (snd s1 x)))"
      by (simp add: Broadcast)
    ultimately show ?thesis using inv1 rest by (intro Cons.IH)
  qed
qed

text \<open>
  Claim C3, as the code has it. \<open>removeClientFromRoom\<close> guards only the delete by
  the presence test. Called for a session that is not a member of the room named by its
  room field, in a hub whose rooms are all inhabited, it leaves the hub as it was: room
  directory, memberships and history. It emits nothing when that room does not exist.
  When the room exists, it broadcasts a \<open>leave\<close> event for the session and then a
  \<open>user_list\<close> to the members of the room, by the non-blocking send: a member with
  room for two more events gains exactly these two, and no session outside the room
  changes. After any call the session is absent from its room, and its room is still
  listed exactly when other members remain, so a second call changes no room and no
  membership and announces again exactly when other members remain. The calls the
  program itself makes never meet this case: in every sequence of requests as the
  sessions of \<open>serveWs\<close> send them, run from the new hub, each \<open>unregister\<close>
  finds its session in its room.
\<close>

theorem second_unregister_keeps_directory_may_announce:
  "(hub_inv h \<and> c \<notin> set (members h (room (\<mu> c))) \<longrightarrow>
      fst (removeClientFromRoom h c tv tu \<mu>) = h \<and>
      snd (removeClientFromRoom h c tv tu \<mu>) =
        sendUserListToRoom h (room (\<mu> c)) tu
          (broadcastToRoom h (room (\<mu> c))
             (leaveMessage (room (\<mu> c)) (username (\<mu> c)) tv) \<mu>) \<and>
      (map_of (rooms h) (room (\<mu> c)) = None \<longrightarrow>
         snd (removeClientFromRoom h c tv tu \<mu>) = \<mu>) \<and>
      (\<forall>x \<in> set (members h (room (\<mu> c))).
         length (pending \<mu> x) + 2 \<le> cap (send (\<mu> x)) \<longrightarrow>
         pending (snd (removeClientFromRoom h c tv tu \<mu>)) x =
           pending \<mu> x @
             [leaveMessage (room (\<mu> c)) (username (\<mu> c)) tv,
              userListMessage (room (\<mu> c))
                (map (\<lambda>y. username (\<mu> y)) (members h (room (\<mu> c)))) tu]) \<and>
      (\<forall>x. x \<notin> set (members h (room (\<mu> c))) \<longrightarrow>
         snd (removeClientFromRoom h c tv tu \<mu>) x = \<mu> x)) \<and>
   (hub_inv h \<longrightarrow>
      hub_inv (fst (removeClientFromRoom h c tv tu \<mu>)) \<and>
      c \<notin> set (members (fst (removeClientFromRoom h c tv tu \<mu>))
                  (room (snd (removeClientFromRoom h c tv tu \<mu>) c))) \<and>
      (map_of (rooms (fst (removeClientFromRoom h c tv tu \<mu>))) (room (\<mu> c)) \<noteq> None)
         = (removeAll c (members h (room (\<mu> c))) \<noteq> []) \<and>
      fst (removeClientFromRoom (fst (removeClientFromRoom h c tv tu \<mu>)) c tv' tu'
             (snd (removeClientFromRoom h c tv tu \<mu>)))
        = fst (removeClientFromRoom h c tv tu \<mu>)) \<and>
   (served [] [] (pre @ Unregister c tv tu # post) \<and>
    runAll pre (NewHub, \<mu>0) = Some (ha, \<mu>a) \<longrightarrow>
      c \<in> set (members ha (room (\<mu>a c))))"
proof (intro conjI impI)
  assume a: "hub_inv h \<and> c \<notin> set (members h (room (\<mu> c)))"
  then have inv: "hub_inv h" and ab: "c \<notin> set (members h (room (\<mu> c)))" by simp_all
  from inv have wf: "wf_hub h" by (simp add: hub_inv_def)
  note eq = removeClientFromRoom_absent [where h = h and c = c and \<mu> = \<mu> and tv = tv and tu = tu, OF inv ab]
  show "fst (removeClientFromRoom h c tv tu \<mu>) = h" by (simp add: eq)
  show "snd (removeClientFromRoom h c tv tu \<mu>) =
        sendUserListToRoom h (room (\<mu> c)) tu
          (broadcastToRoom h (room (\<mu> c))
             (leaveMessage (room (\<mu> c)) (username (\<mu> c)) tv) \<mu>)"
    by (simp add: eq)
  show "snd (removeClientFromRoom h c tv tu \<mu>) = \<mu>" if "map_of (rooms h) (room (\<mu> c)) = None"
    using that by (simp add: removeClientFromRoom_def)
  show "\<forall>x \<in> set (members h (room (\<mu> c))).
         length (pending \<mu> x) + 2 \<le> cap (send (\<mu> x)) \<longrightarrow>
         pending (snd (removeClientFromRoom h c tv tu \<mu>)) x =
           pending \<mu> x @
             [leaveMessage (room (\<mu> c)) (username (\<mu> c)) tv,
              userListMessage (room (\<mu> c))
                (map (\<lambda>y. username (\<mu> y)) (members h (room (\<mu> c)))) tu]"
    unfolding eq snd_conv using announce_twice [OF wf] by blast
  show "\<forall>x. x \<notin> set (members h (room (\<mu> c))) \<longrightarrow>
         snd (removeClientFromRoom h c tv tu \<mu>) x = \<mu> x"
    unfolding eq snd_conv using announce_other [OF wf] by blast
next
  assume inv: "hub_inv h"
  then have wf: "wf_hub h" by (simp add: hub_inv_def)
  let ?s = "removeClientFromRoom h c tv tu \<mu>"
  show inv1: "hub_inv (fst ?s)" using inv by (rule hub_inv_remove)
  show ab1: "c \<notin> set (members (fst ?s) (room (snd ?s c)))"
    by (simp add: fields_removeClientFromRoom members_after_remove(1) [OF wf])
  show "(map_of (rooms (fst ?s)) (room (\<mu> c)) \<noteq> None)
          = (removeAll c (members h (room (\<mu> c))) \<noteq> [])"
    by (rule members_after_remove(2) [OF wf])
  show "fst (removeClientFromRoom (fst ?s) c tv' tu' (snd ?s)) = fst ?s"
    by (simp add: removeClientFromRoom_absent [where h = "fst ?s" and c = c and \<mu> = "snd ?s", OF inv1 ab1])
next
  assume a: "served [] [] (pre @ Unregister c tv tu # post) \<and>
             runAll pre (NewHub, \<mu>0) = Some (ha, \<mu>a)"
  then have s: "served [] [] (pre @ Unregister c tv tu # post)"
    and r: "runAll pre (NewHub, \<mu>0) = Some (ha, \<mu>a)" by simp_all
  have i0: "hub_inv (fst (NewHub, \<mu>0))" by (simp add: hub_inv_NewHub)
  have l0: "\<forall>x \<in> set []. x \<in> set (members (fst (NewHub, \<mu>0)) (room (snd (NewHub, \<mu>0) x)))"
    by simp
  from served_unregister_present [OF s i0 l0 r]
  show "c \<in> set (members ha (room (\<mu>a c)))" by simp
qed

theorem second_unregister_keeps_directory_may_announce_counterexample:
  "run (Unregister 2 t0 t0) (lobbyHub, lobbyHeap) = Some (leftHub, leftHeap) \<and>
   2 \<notin> set (members leftHub ''lobby'') \<and>
   run (Unregister 2 t0 t0) (leftHub, leftHeap)
     = Some (leftHub,
             leftHeap(1 := \<lparr>send = \<lparr>buf = [leaveMessage ''lobby'' ''B'' t0,
                                             userListMessage ''lobby'' [''A''] t0,
                                             leaveMessage ''lobby'' ''B'' t0,
                                             userListMessage ''lobby'' [''A''] t0], cap = 256\<rparr>,
                             username = ''A'', room = ''lobby''\<rparr>)) \<and>
   pending (snd (removeClientFromRoom leftHub 2 t0 t0 leftHeap)) 1 \<noteq> pending leftHeap 1"
  by (auto simp: removeClientFromRoom_def setRoom_def sendUserListToRoom_def broadcastToRoom_def
      Let_def lobbyHub_def lobbyHeap_def leftHub_def leftHeap_def serveWsClient_def deliver_def
      try_send_def members_def pending_def fun_eq_iff)

theorem second_unregister_keeps_directory_may_announce_witness:
  "hub_inv leftHub \<and> 2 \<notin> set (members leftHub (room (leftHeap 2))) \<and>
   fst (removeClientFromRoom leftHub 2 t0 t0 leftHeap) = leftHub \<and>
   1 \<in> set (members leftHub (room (leftHeap 2))) \<and>
   length (pending leftHeap 1) + 2 \<le> cap (send (leftHeap 1)) \<and>
   pending (snd (removeClientFromRoom leftHub 2 t0 t0 leftHeap)) 1 =
     [leaveMessage ''lobby'' ''B'' t0, userListMessage ''lobby'' [''A''] t0,
      leaveMessage ''lobby'' ''B'' t0, userListMessage ''lobby'' [''A''] t0] \<and>
   3 \<notin> set (members leftHub (room (leftHeap 2))) \<and>
   snd (removeClientFromRoom leftHub 2 t0 t0 leftHeap) 3 = leftHeap 3 \<and>
   hub_inv lobbyHub \<and>
   2 \<notin> set (members (fst (removeClientFromRoom lobbyHub 2 t0 t0 lobbyHeap)) ''lobby'') \<and>
   served [] [] ([Register 1 t0 t0, Register 2 t0 t0] @ Unregister 2 t0 t0 # []) \<and>
   map_option fst (runAll [Register 1 t0 t0, Register 2 t0 t0] (NewHub, lobbyHeap))
     = Some \<lparr>rooms = [(''lobby'', \<lparr>Name = ''lobby'', Clients = [2, 1]\<rparr>)], history = []\<rparr> \<and>
   2 \<in> set (members \<lparr>rooms = [(''lobby'', \<lparr>Name = ''lobby'', Clients = [2, 1]\<rparr>)], history = []\<rparr>
               ''lobby'')"
proof -
  have inv: "hub_inv leftHub" by (simp add: hub_inv_lookup leftHub_def)
  have inv2: "hub_inv lobbyHub" by (simp add: hub_inv_lookup lobbyHub_def)
  have rm: "room (leftHeap 2) = ''lobby''" "username (leftHeap 2) = ''B''"
    by (simp_all add: leftHeap_def lobbyHeap_def serveWsClient_def)
  have rm2: "room (lobbyHeap 2) = ''lobby''"
    by (simp add: lobbyHeap_def serveWsClient_def)
  have mem: "members leftHub ''lobby'' = [1]" by (simp add: members_def leftHub_def)
  have ab: "2 \<notin> set (members leftHub (room (leftHeap 2)))" by (simp add: rm mem)
  have m1: "1 \<in> set (members leftHub (room (leftHeap 2)))" by (simp add: rm mem)
  have m3: "3 \<notin> set (members leftHub (room (leftHeap 2)))" by (simp add: rm mem)
  have users: "username (leftHeap 1) = ''A''"
    by (simp add: leftHeap_def)
  have pend: "pending leftHeap 1 = [leaveMessage ''lobby'' ''B'' t0, userListMessage ''lobby'' [''A''] t0]"
    and cp: "cap (send (leftHeap 1)) = 256"
    by (simp_all add: pending_def leftHeap_def)
  have sp: "length (pending leftHeap 1) + 2 \<le> cap (send (leftHeap 1))"
    unfolding pend cp by simp
  have sv: "served [] [] ([Register 1 t0 t0, Register 2 t0 t0] @ Unregister 2 t0 t0 # [])"
    by simp
  obtain ha \<mu>a where r: "runAll [Register 1 t0 t0, Register 2 t0 t0] (NewHub, lobbyHeap) = Some (ha, \<mu>a)"
    and ha: "ha = \<lparr>rooms = [(''lobby'', \<lparr>Name = ''lobby'', Clients = [2, 1]\<rparr>)], history = []\<rparr>"
    and ra: "room (\<mu>a 2) = ''lobby''"
    by (simp add: NewHub_def lobbyHeap_def serveWsClient_def addClientToRoom_def getOrCreateRoom_def
        setRoom_def broadcastToRoom_def sendUserListToRoom_def deliver_def
        try_send_def Let_def joinMessage_def)
  note main = second_unregister_keeps_directory_may_announce
  note first = main [of leftHub 2 leftHeap t0 t0 t0 t0 "[]" "[]" lobbyHeap NewHub lobbyHeap,
      THEN conjunct1, THEN mp, OF conjI [OF inv ab]]
  note a = first [THEN conjunct1]
  note bb = first [THEN conjunct2, THEN conjunct2, THEN conjunct2, THEN conjunct1,
      THEN bspec, OF m1, THEN mp, OF sp]
  have b: "pending (snd (removeClientFromRoom leftHub 2 t0 t0 leftHeap)) 1 =
     [leaveMessage ''lobby'' ''B'' t0, userListMessage ''lobby'' [''A''] t0,
      leaveMessage ''lobby'' ''B'' t0, userListMessage ''lobby'' [''A''] t0]"
    unfolding bb rm mem list.map users pend by simp
  have c: "snd (removeClientFromRoom leftHub 2 t0 t0 leftHeap) 3 = leftHeap 3"
    using first [THEN conjunct2, THEN conjunct2, THEN conjunct2, THEN conjunct2,
        THEN spec, THEN mp, OF m3] .
  note second = main [of lobbyHub 2 lobbyHeap t0 t0 t0 t0 "[]" "[]" lobbyHeap NewHub lobbyHeap,
      THEN conjunct2, THEN conjunct1, THEN mp, OF inv2, THEN conjunct2, THEN conjunct1]
  then have d: "2 \<notin> set (members (fst (removeClientFromRoom lobbyHub 2 t0 t0 lobbyHeap)) ''lobby'')"
    by (simp add: fields_removeClientFromRoom rm2)
  note third = main [of NewHub 2 lobbyHeap t0 t0 t0 t0 "[Register 1 t0 t0, Register 2 t0 t0]" "[]" lobbyHeap ha \<mu>a,
      THEN conjunct2, THEN conjunct2, THEN mp, OF conjI [OF sv r]]
  then have e: "2 \<in> set (members \<lparr>rooms = [(''lobby'', \<lparr>Name = ''lobby'', Clients = [2, 1]\<rparr>)], history = []\<rparr>
               ''lobby'')"
    by (simp add: ra ha)
  from r ha have f: "map_option fst (runAll [Register 1 t0 t0, Register 2 t0 t0] (NewHub, lobbyHeap))
     = Some \<lparr>rooms = [(''lobby'', \<lparr>Name = ''lobby'', Clients = [2, 1]\<rparr>)], history = []\<rparr>"
    by simp
  from inv ab a m1 sp b m3 c inv2 d sv f e show ?thesis by (intro conjI)
qed

end
